theory Spec2Isabelle
  imports Main "HOL-Library.Word"
begin

unbundle bit_operations_syntax

section \<open>Tokens\<close>

type_synonym byte = "8 word"

text \<open>
  \<^verbatim>\<open>type Kind uint8\<close> with \<^verbatim>\<open>const ( _ Kind = iota; EOF; Float; ... )\<close>: the value 0 is
  the blank identifier, so \<open>EOF\<close> is 1 and the zero value of \<open>Kind\<close> is none of the named
  constants. \<open>KindZero\<close> is that unnamed value 0.
\<close>

datatype Kind = KindZero | EOF | Float | Integer | String | StringHex | Name
  | StartArray | EndArray | StartDic | EndDic | Other | StartProc | EndProc | CharString

record Token =
  Value :: "byte list"
  Kind :: Kind

text \<open>\<^verbatim>\<open>Token{}\<close>: nil value, kind 0.\<close>

definition zeroToken :: Token where
  "zeroToken = \<lparr>Value = [], Kind = KindZero\<rparr>"

text \<open>\<^verbatim>\<open>Token{Kind: k}\<close>.\<close>

definition kindToken :: "Kind \<Rightarrow> Token" where
  "kindToken k = \<lparr>Value = [], Kind = k\<rparr>"

text \<open>The error values built by \<open>nextToken\<close>, one constructor for each message.\<close>

datatype error =
    CorruptedName            \<comment> \<open>"corrupted name object"\<close>
  | GtNotExpected            \<comment> \<open>"'>' not expected"\<close>
  | InvalidHexChar1 byte     \<comment> \<open>"invalid hex char %d (%s)"\<close>
  | InvalidHexChar2 byte     \<comment> \<open>"invalid hex char %d"\<close>
  | StringEOF                \<comment> \<open>"error reading string: unexpected EOF"\<close>
  | InvalidCharstringLength  \<comment> \<open>"invalid charstring length: %s"\<close>
  | ExpectedInteger          \<comment> \<open>"expected INTEGER before -| or RD"\<close>

text \<open>Byte literals: \<open>B CHR ''x''\<close> is Go's \<^verbatim>\<open>'x'\<close>; \<open>bytes\<close> is \<^verbatim>\<open>[]byte("...")\<close>.\<close>

definition B :: "char \<Rightarrow> byte" where
  "B c = of_char c"

definition bytes :: "string \<Rightarrow> byte list" where
  "bytes s = map B s"

section \<open>Character classes\<close>

definition isEOL :: "byte \<Rightarrow> bool" where
  "isEOL ch = (ch = 10 \<or> ch = 13)"

definition IsAsciiWhitespace :: "byte \<Rightarrow> bool" where
  "IsAsciiWhitespace ch = (ch = 0 \<or> ch = 9 \<or> ch = 10 \<or> ch = 12 \<or> ch = 13 \<or> ch = 32)"

definition isDelimiter :: "byte \<Rightarrow> bool" where
  "isDelimiter ch =
     (if ch = 40 \<or> ch = 41 \<or> ch = 60 \<or> ch = 62 \<or> ch = 91 \<or> ch = 93 \<or> ch = 123
         \<or> ch = 125 \<or> ch = 47 \<or> ch = 37
      then True else IsAsciiWhitespace ch)"

definition isDigit :: "byte \<Rightarrow> bool" where
  "isDigit ch = (ch \<ge> B CHR ''0'' \<and> ch \<le> B CHR ''9'')"

definition IsHexChar :: "byte \<Rightarrow> byte \<times> bool" where
  "IsHexChar c =
     (if B CHR ''0'' \<le> c \<and> c \<le> B CHR ''9'' then (c - B CHR ''0'', True)
      else if B CHR ''a'' \<le> c \<and> c \<le> B CHR ''f'' then (c - B CHR ''a'' + 10, True)
      else if B CHR ''A'' \<le> c \<and> c \<le> B CHR ''F'' then (c - B CHR ''A'' + 10, True)
      else (c, False))"

definition startsBinary :: "Token \<Rightarrow> bool" where
  "startsBinary t = (Kind t = Other \<and> (Value t = bytes ''stream'' \<or> Value t = bytes ''ID''))"

section \<open>The byte source\<close>

text \<open>
  The tokenizer over a byte slice (\<^verbatim>\<open>src == nil\<close>, as \<^verbatim>\<open>NewTokenizer\<close> builds it): \<open>d\<close>
  is \<^verbatim>\<open>pr.data\<close> and \<open>p\<close> is \<^verbatim>\<open>pr.pos\<close>. Every scanner takes the position and returns the
  new one. \<^verbatim>\<open>read\<close> returns \<^verbatim>\<open>(0, false)\<close> and leaves the position when it is at or past
  the end, also when the position is beyond the end.

  Positions are naturals: \<^verbatim>\<open>pr.pos--\<close> only follows a read that advanced (or, in the two
  places of the string scanner where the flag of the last read is not looked at, at least
  two earlier reads that advanced), so it never goes below zero; a negative position can
  only come from \<^verbatim>\<open>SetPosition\<close> and from \<^verbatim>\<open>readCharString\<close>, which compute on integers
  below.
\<close>

definition read :: "byte list \<Rightarrow> nat \<Rightarrow> byte \<times> bool \<times> nat" where
  "read d p = (if p \<ge> length d then (0, False, p) else (d ! p, True, p + 1))"

text \<open>\<^verbatim>\<open>for ok && IsAsciiWhitespace(ch) { ch, ok = pr.read() }\<close>\<close>

function skipWhitespace :: "byte list \<Rightarrow> byte \<Rightarrow> bool \<Rightarrow> nat \<Rightarrow> byte \<times> bool \<times> nat" where
  "skipWhitespace d ch ok p =
     (if ok \<and> IsAsciiWhitespace ch
      then (case read d p of (ch', ok', p') \<Rightarrow> skipWhitespace d ch' ok' p')
      else (ch, ok, p))"
  by pat_completeness auto
termination
  by (relation "measure (\<lambda>(d, ch, ok, p).
        length d - p + (if ok \<and> IsAsciiWhitespace ch then 1 else 0))")
     (auto simp: read_def IsAsciiWhitespace_def split: if_splits)

text \<open>\<^verbatim>\<open>for ok && ch != '\r' && ch != '\n' { ch, ok = pr.read() }\<close>\<close>

function skipComment :: "byte list \<Rightarrow> byte \<Rightarrow> bool \<Rightarrow> nat \<Rightarrow> byte \<times> bool \<times> nat" where
  "skipComment d ch ok p =
     (if ok \<and> ch \<noteq> 13 \<and> ch \<noteq> 10
      then (case read d p of (ch', ok', p') \<Rightarrow> skipComment d ch' ok' p')
      else (ch, ok, p))"
  by pat_completeness auto
termination
  by (relation "measure (\<lambda>(d, ch, ok, p).
        length d - p + (if ok \<and> ch \<noteq> 13 \<and> ch \<noteq> 10 then 1 else 0))")
     (auto simp: read_def split: if_splits)

section \<open>Names\<close>

text \<open>
  \<^verbatim>\<open>hex.Decode([]byte{0}, []byte{h1, h2})\<close> fails exactly when one of the two bytes is not
  a hexadecimal digit.
\<close>

definition hexPairOK :: "byte \<Rightarrow> byte \<Rightarrow> bool" where
  "hexPairOK h1 h2 = (snd (IsHexChar h1) \<and> snd (IsHexChar h2))"

text \<open>The loop of the \<^verbatim>\<open>'/'\<close> case, with the push-back and the return after it.\<close>

function readName :: "byte list \<Rightarrow> nat \<Rightarrow> byte list \<Rightarrow> Token \<times> error option \<times> nat" where
  "readName d p outBuf =
     (case read d p of (ch, ok, p1) \<Rightarrow>
        if \<not> ok \<or> isDelimiter ch
        then (\<lparr>Value = outBuf, Kind = Name\<rparr>, None, if ok then p1 - 1 else p1)
        else if ch = B CHR ''#''
        then (case read d p1 of (h1, _, p2) \<Rightarrow>
              case read d p2 of (h2, _, p3) \<Rightarrow>
                if \<not> hexPairOK h1 h2 then (zeroToken, Some CorruptedName, p3)
                else readName d p3 (outBuf @ [ch] @ [h1, h2]))
        else readName d p1 (outBuf @ [ch]))"
  by pat_completeness auto
termination
  by (relation "measure (\<lambda>(d, p, outBuf). length d - p)")
     (auto simp: read_def split: if_splits)

section \<open>Hexadecimal strings\<close>

text \<open>
  The loop of the \<^verbatim>\<open>'<'\<close> case: \<open>v1\<close>, \<open>ok1\<close> are the byte and flag read before the
  iteration starts.
\<close>

lemma skipWhitespace_pos: "skipWhitespace d ch ok p = (ch', ok', p') \<Longrightarrow> p \<le> p'"
proof (induction d ch ok p rule: skipWhitespace.induct)
  case (1 d ch ok p)
  show ?case
  proof (cases "ok \<and> IsAsciiWhitespace ch")
    case True
    obtain c1 o1 p1 where r: "read d p = (c1, o1, p1)" by (cases "read d p") auto
    from r have "p \<le> p1" by (auto simp: read_def split: if_splits)
    moreover from "1.prems" True r have "skipWhitespace d c1 o1 p1 = (ch', ok', p')"
      by (simp add: skipWhitespace.simps [of d ch ok p])
    from "1.IH" [OF True r [symmetric] refl this] have "p1 \<le> p'" .
    ultimately show ?thesis by simp
  next
    case False
    with "1.prems" show ?thesis by (simp add: skipWhitespace.simps [of d ch ok p])
  qed
qed

lemma skipWhitespace_eof:
  "skipWhitespace d 0 False p = (0, False, p)"
  by (simp add: skipWhitespace.simps [of d 0 False p])

lemma readHex_progress:
  assumes "skipWhitespace d v1 ok1 p = (v1a, ok1a, p1)"
    and "read d p1 = (v2, ok2, p2)"
    and "skipWhitespace d v2 ok2 p2 = (v2a, ok2a, p3)"
    and "snd (IsHexChar v2a)"
    and "read d p3 = (v1b, ok1b, p4)"
  shows "length d - p4 < length d - p"
proof -
  have a: "p \<le> p1" using assms(1) by (rule skipWhitespace_pos)
  have b: "p2 \<le> p3" using assms(3) by (rule skipWhitespace_pos)
  have c: "p3 \<le> p4" using assms(5) by (auto simp: read_def split: if_splits)
  have d: "p1 < length d"
  proof (rule ccontr)
    assume "\<not> p1 < length d"
    with assms(2) have "v2 = 0" "ok2 = False" "p2 = p1"
      by (auto simp: read_def split: if_splits)
    with assms(3) skipWhitespace_eof [of d p1] have "v2a = 0" by simp
    with assms(4) show False by (simp add: IsHexChar_def B_def)
  qed
  with assms(2) have e: "p2 = p1 + 1" by (auto simp: read_def split: if_splits)
  from a b c d e show ?thesis by simp
qed

function readHex :: "byte list \<Rightarrow> byte \<Rightarrow> bool \<Rightarrow> nat \<Rightarrow> byte list \<Rightarrow> Token \<times> error option \<times> nat" where
  "readHex d v1 ok1 p outBuf =
     (case skipWhitespace d v1 ok1 p of (v1a, ok1a, p1) \<Rightarrow>
        if v1a = B CHR ''>'' then (\<lparr>Value = outBuf, Kind = StringHex\<rparr>, None, p1)
        else (case IsHexChar v1a of (h1, okh1) \<Rightarrow>
          if \<not> okh1 then (zeroToken, Some (InvalidHexChar1 h1), p1)
          else (case read d p1 of (v2, ok2, p2) \<Rightarrow>
                case skipWhitespace d v2 ok2 p2 of (v2a, ok2a, p3) \<Rightarrow>
            if v2a = B CHR ''>''
            then (\<lparr>Value = outBuf @ [push_bit 4 h1], Kind = StringHex\<rparr>, None, p3)
            else (case IsHexChar v2a of (h2, okh2) \<Rightarrow>
              if \<not> okh2 then (zeroToken, Some (InvalidHexChar2 h2), p3)
              else (case read d p3 of (v1b, ok1b, p4) \<Rightarrow>
                      readHex d v1b ok1b p4 (outBuf @ [push_bit 4 h1 + h2]))))))"
  by pat_completeness auto
termination
proof (relation "measure (\<lambda>(d, v1, ok1, p, outBuf). length d - p)", goal_cases)
  case 1
  show ?case by simp
next
  case prems: (2 d v1 ok1 p outBuf x y xa ya xaa yb xb yc xc yd xd ye xe yf xf yg xg yh xh yi)
  have "length d - yi < length d - p"
  proof (rule readHex_progress)
    show "skipWhitespace d v1 ok1 p = (x, xa, ya)" using prems by simp
    show "read d ya = (xb, xc, yd)" using prems by simp
    show "skipWhitespace d xb xc yd = (xd, xe, yf)" using prems by simp
    show "snd (IsHexChar xd)" using prems by (metis snd_conv)
    show "read d yf = (xg, xh, yi)" using prems by simp
  qed
  then show ?case by simp
qed

section \<open>Literal strings\<close>

text \<open>
  The \<^verbatim>\<open>'\\'\<close> branch of the string loop, up to the end of its \<^verbatim>\<open>switch\<close>: the byte, the flag
  and the position it leaves, and \<^verbatim>\<open>lineBreak\<close>. After a \<^verbatim>\<open>\r\<close> and in the octal cases the
  byte that does not belong to the escape is pushed back whether or not the read that
  fetched it advanced. The arithmetic is that of \<^verbatim>\<open>byte\<close>, so \<^verbatim>\<open>octal << 3\<close> wraps; the test
  \<^verbatim>\<open>ch < 0\<close> after the \<^verbatim>\<open>switch\<close> is never true of a byte and is left out of the loop below.
\<close>

definition readEscape :: "byte list \<Rightarrow> nat \<Rightarrow> byte \<times> bool \<times> nat \<times> bool" where
  "readEscape d p =
     (case read d p of (ch, ok, p1) \<Rightarrow>
        if ch = B CHR ''n'' then (10, ok, p1, False)
        else if ch = B CHR ''r'' then (13, ok, p1, False)
        else if ch = B CHR ''t'' then (9, ok, p1, False)
        else if ch = B CHR ''b'' then (8, ok, p1, False)
        else if ch = B CHR ''f'' then (12, ok, p1, False)
        else if ch = B CHR ''('' \<or> ch = B CHR '')'' \<or> ch = 92 then (ch, ok, p1, False)
        else if ch = 13 then
          (case read d p1 of (ch2, ok2, p2) \<Rightarrow>
             if ch2 \<noteq> 10 then (ch2, ok2, p2 - 1, True) else (ch2, ok2, p2, True))
        else if ch = 10 then (ch, ok, p1, True)
        else if ch < B CHR ''0'' \<or> ch > B CHR ''7'' then (ch, ok, p1, False)
        else
          (let octal = ch - B CHR ''0'' in
           case read d p1 of (ch2, ok2, p2) \<Rightarrow>
             if ch2 < B CHR ''0'' \<or> ch2 > B CHR ''7'' then (octal, ok2, p2 - 1, False)
             else
               (let octal2 = push_bit 3 octal + ch2 - B CHR ''0'' in
                case read d p2 of (ch3, ok3, p3) \<Rightarrow>
                  if ch3 < B CHR ''0'' \<or> ch3 > B CHR ''7'' then (octal2, ok3, p3 - 1, False)
                  else ((push_bit 3 octal2 + ch3 - B CHR ''0'') AND 255, ok3, p3, False))))"

lemma readEscape_pos: "readEscape d p = (ch, ok, p', lb) \<Longrightarrow> p \<le> p'"
  by (auto simp: readEscape_def read_def Let_def split: if_splits)

text \<open>
  The loop of the \<^verbatim>\<open>'('\<close> case. It returns the buffer, the flag \<^verbatim>\<open>ok\<close> the loop was left
  with, and the position. \<open>nesting\<close> is a Go \<^verbatim>\<open>int\<close>. A \<^verbatim>\<open>break\<close> of the loop is a
  returned triple, \<^verbatim>\<open>continue\<close> and the end of the body are the recursive calls.
\<close>

function readString :: "byte list \<Rightarrow> nat \<Rightarrow> int \<Rightarrow> byte list \<Rightarrow> byte list \<times> bool \<times> nat" where
  "readString d p nesting outBuf =
     (case read d p of (ch, ok, p1) \<Rightarrow>
        if \<not> ok then (outBuf, ok, p1)
        else if ch = B CHR ''('' then
          (if nesting + 1 = -1 then (outBuf, ok, p1)
           else readString d p1 (nesting + 1) (outBuf @ [ch]))
        else if ch = B CHR '')'' then
          (if nesting - 1 = -1 then (outBuf, ok, p1)
           else readString d p1 (nesting - 1) (outBuf @ [ch]))
        else if ch = 92 then
          (case readEscape d p1 of (ch2, ok2, p2, lineBreak) \<Rightarrow>
             if lineBreak then readString d p2 nesting outBuf
             else if \<not> ok2 then (outBuf, ok2, p2)
             else if nesting = -1 then (outBuf, ok2, p2)
             else readString d p2 nesting (outBuf @ [ch2]))
        else if ch = 13 then
          (case read d p1 of (ch2, ok2, p2) \<Rightarrow>
             if \<not> ok2 then (outBuf, ok2, p2)
             else if ch2 \<noteq> 10 then
               (if nesting = -1 then (outBuf, ok2, p2 - 1)
                else readString d (p2 - 1) nesting (outBuf @ [10]))
             else
               (if nesting = -1 then (outBuf, ok2, p2)
                else readString d p2 nesting (outBuf @ [ch2])))
        else
          (if nesting = -1 then (outBuf, ok, p1)
           else readString d p1 nesting (outBuf @ [ch])))"
  by pat_completeness auto
termination
proof (relation "measure (\<lambda>(d, p, nesting, outBuf). length d - p)", goal_cases)
  case 1
  show ?case by simp
next
  case 2
  then show ?case by (auto simp: read_def split: if_splits)
next
  case 3
  then show ?case by (auto simp: read_def split: if_splits)
next
  case 4
  then show ?case
    by (auto simp: read_def dest!: readEscape_pos [OF sym] split: if_splits)
next
  case 5
  then show ?case
    by (auto simp: read_def dest!: readEscape_pos [OF sym] split: if_splits)
next
  case 6
  then show ?case by (auto simp: read_def split: if_splits)
next
  case 7
  then show ?case by (auto simp: read_def split: if_splits)
next
  case 8
  then show ?case by (auto simp: read_def split: if_splits)
qed

section \<open>The conversions of package strconv\<close>

text \<open>
  \<^verbatim>\<open>strconv.Atoi\<close>, \<^verbatim>\<open>strconv.ParseInt\<close>, \<^verbatim>\<open>strconv.Itoa\<close> and \<^verbatim>\<open>strconv.ParseFloat\<close> belong to
  Go's standard library, not to this repository. They are modelled from their documented
  behaviour on a platform whose \<^verbatim>\<open>int\<close> has 64 bits, for the arguments the tokenizer
  passes: the underscore digit separators that base 0 admits are not modelled (the
  tokenizer only passes decimal digits to \<^verbatim>\<open>ParseInt\<close>).
\<close>

datatype numError = NoErr | ErrSyntax | ErrRange | ErrBase

definition lower :: "byte \<Rightarrow> byte" where
  "lower c = c OR 32"

text \<open>
  The digit loop of \<^verbatim>\<open>ParseUint\<close> for \<^verbatim>\<open>bitSize\<close> 64, with \<open>n\<close> the value so far. The
  \<^verbatim>\<open>uint64\<close> values are integers here, with the two overflow tests written out.
\<close>

fun parseDigits :: "int \<Rightarrow> int \<Rightarrow> byte list \<Rightarrow> int \<times> numError" where
  "parseDigits base n [] = (n, NoErr)"
| "parseDigits base n (c # cs) =
     (if \<not> (B CHR ''0'' \<le> c \<and> c \<le> B CHR ''9'')
         \<and> \<not> (B CHR ''a'' \<le> lower c \<and> lower c \<le> B CHR ''z'')
      then (0, ErrSyntax)
      else
        (let dg = (if B CHR ''0'' \<le> c \<and> c \<le> B CHR ''9'' then uint (c - B CHR ''0'')
                   else uint (lower c - B CHR ''a'' + 10))
         in if dg \<ge> base then (0, ErrSyntax)
            else if n \<ge> (2 ^ 64 - 1) div base + 1 then (2 ^ 64 - 1, ErrRange)
            else if n * base + dg > 2 ^ 64 - 1 then (2 ^ 64 - 1, ErrRange)
            else parseDigits base (n * base + dg) cs))"

definition ParseUint :: "byte list \<Rightarrow> int \<Rightarrow> int \<times> numError" where
  "ParseUint s base =
     (if s = [] then (0, ErrSyntax)
      else if 2 \<le> base \<and> base \<le> 36 then parseDigits base 0 s
      else if base = 0 then
        (if hd s = B CHR ''0'' then
           (if length s \<ge> 3 \<and> lower (s ! 1) = B CHR ''b'' then parseDigits 2 0 (drop 2 s)
            else if length s \<ge> 3 \<and> lower (s ! 1) = B CHR ''o'' then parseDigits 8 0 (drop 2 s)
            else if length s \<ge> 3 \<and> lower (s ! 1) = B CHR ''x'' then parseDigits 16 0 (drop 2 s)
            else parseDigits 8 0 (drop 1 s))
         else parseDigits 10 0 s)
      else (0, ErrBase))"

definition ParseInt :: "byte list \<Rightarrow> int \<Rightarrow> int \<times> numError" where
  "ParseInt s base =
     (if s = [] then (0, ErrSyntax)
      else
        (let neg = (hd s = B CHR ''-'');
             s1 = (if hd s = B CHR ''+'' \<or> hd s = B CHR ''-'' then tl s else s)
         in case ParseUint s1 base of (un, err) \<Rightarrow>
              if err \<noteq> NoErr \<and> err \<noteq> ErrRange then (0, err)
              else if \<not> neg \<and> un \<ge> 2 ^ 63 then (2 ^ 63 - 1, ErrRange)
              else if neg \<and> un > 2 ^ 63 then (- (2 ^ 63), ErrRange)
              else (if neg then - un else un, NoErr)))"

text \<open>\<^verbatim>\<open>Atoi(s)\<close> is \<^verbatim>\<open>ParseInt(s, 10, 0)\<close> converted to \<^verbatim>\<open>int\<close>.\<close>

definition Atoi :: "byte list \<Rightarrow> int \<times> numError" where
  "Atoi s = ParseInt s 10"

text \<open>The decimal digits of a number that is not negative.\<close>

function decimalDigits :: "int \<Rightarrow> byte list" where
  "decimalDigits n =
     (if n < 10 then [B CHR ''0'' + of_int n]
      else decimalDigits (n div 10) @ [B CHR ''0'' + of_int (n mod 10)])"
  by pat_completeness auto
termination
  by (relation "measure nat") auto

definition Itoa :: "int \<Rightarrow> byte list" where
  "Itoa i = (if i < 0 then B CHR ''-'' # decimalDigits (- i) else decimalDigits i)"

text \<open>
  \<^verbatim>\<open>Token.Int\<close> is \<^verbatim>\<open>int(f)\<close> for the \<^verbatim>\<open>float64\<close> that \<^verbatim>\<open>ParseFloat\<close> returns. The model
  covers the values a token of kind \<open>Integer\<close> holds, an optional sign and decimal digits
  (\<open>readNumber\<close> builds no other): the decimal value is rounded to the nearest number with
  a 53-bit significand, ties to even; a value that rounds to \<^verbatim>\<open>2^1024\<close> or more is the range
  error. \<^verbatim>\<open>None\<close> is a non-nil error. For any other byte string the model reports an error,
  where \<^verbatim>\<open>ParseFloat\<close> accepts further notations of floating-point numbers. The conversion
  of a \<^verbatim>\<open>float64\<close> outside the range of \<^verbatim>\<open>int\<close> depends on the platform; here it is the
  smallest \<^verbatim>\<open>int\<close>, as on amd64.
\<close>

function bitlen :: "int \<Rightarrow> nat" where
  "bitlen n = (if n \<le> 0 then 0 else Suc (bitlen (n div 2)))"
  by pat_completeness auto
termination
  by (relation "measure nat") auto

definition roundFloat64 :: "int \<Rightarrow> int option" where
  "roundFloat64 n =
     (if n < 2 ^ 53 then Some n
      else
        (let e = bitlen n - 53;
             q = n div 2 ^ e;
             r = n mod 2 ^ e;
             h = 2 ^ (e - 1);
             q1 = (if r > h \<or> (r = h \<and> odd q) then q + 1 else q);
             v = q1 * 2 ^ e
         in if v \<ge> 2 ^ 1024 then None else Some v))"

definition decimalValue :: "byte list \<Rightarrow> int" where
  "decimalValue ds = foldl (\<lambda>n c. 10 * n + uint (c - B CHR ''0'')) 0 ds"

definition Token_Int :: "Token \<Rightarrow> int option" where
  "Token_Int t =
     (let s = Value t;
          neg = (s \<noteq> [] \<and> hd s = B CHR ''-'');
          ds = (if s \<noteq> [] \<and> (hd s = B CHR ''+'' \<or> hd s = B CHR ''-'') then tl s else s)
      in if ds = [] \<or> \<not> list_all isDigit ds then None
         else
           (case roundFloat64 (decimalValue ds) of
              None \<Rightarrow> None
            | Some v \<Rightarrow>
                Some (if neg then (if v \<le> 2 ^ 63 then - v else - (2 ^ 63))
                      else (if v < 2 ^ 63 then v else - (2 ^ 63)))))"

section \<open>Numbers\<close>

text \<open>\<^verbatim>\<open>for isDigit(c) { pr.numberSb = append(pr.numberSb, c); c, ok = pr.read() }\<close>\<close>

function readDigits :: "byte list \<Rightarrow> byte list \<Rightarrow> byte \<Rightarrow> bool \<Rightarrow> nat
    \<Rightarrow> byte list \<times> byte \<times> bool \<times> nat" where
  "readDigits d sb c ok p =
     (if isDigit c
      then (case read d p of (c', ok', p') \<Rightarrow> readDigits d (sb @ [c]) c' ok' p')
      else (sb, c, ok, p))"
  by pat_completeness auto
termination
  by (relation "measure (\<lambda>(d, sb, c, ok, p). length d - p + (if isDigit c then 1 else 0))")
     (auto simp: read_def isDigit_def B_def split: if_splits)

text \<open>
  \<open>readNumber\<close> returns the token, the flag and the position it leaves. \<open>sb\<close> is
  \<^verbatim>\<open>pr.numberSb\<close>, emptied on entry. \<^verbatim>\<open>hasDigit\<close> is set by the body of the first digit
  loop, which runs exactly when the byte it starts with is a digit. After a sign the flag
  \<^verbatim>\<open>ok\<close> of the first read is kept (\<^verbatim>\<open>c, _ = pr.read()\<close>).
\<close>

definition readNumberTail :: "byte list \<Rightarrow> nat \<Rightarrow> byte list \<Rightarrow> byte list \<Rightarrow> bool
    \<Rightarrow> byte \<Rightarrow> bool \<Rightarrow> nat \<Rightarrow> Token \<times> bool \<times> nat" where
  "readNumberTail d markedPos radix sb numberRequired c ok p =
     (if numberRequired \<and> \<not> isDigit c then (zeroToken, False, markedPos)
      else
        (case readDigits d sb c ok p of (sb1, c1, ok1, p1) \<Rightarrow>
           (let p2 = (if ok1 then p1 - 1 else p1)
            in if radix \<noteq> []
               then (\<lparr>Value = Itoa (fst (ParseInt sb1 (fst (Atoi radix)))), Kind = Integer\<rparr>,
                     True, p2)
               else (\<lparr>Value = sb1, Kind = Float\<rparr>, True, p2))))"

definition readNumber :: "byte list \<Rightarrow> nat \<Rightarrow> Token \<times> bool \<times> nat" where
  "readNumber d p =
     (let markedPos = p in
      case read d p of (c0, ok0, p0) \<Rightarrow>
      case (if c0 = B CHR ''+'' \<or> c0 = B CHR ''-''
            then (case read d p0 of (c', _, p') \<Rightarrow> ([c0], c', p'))
            else ([], c0, p0)) of (sb0, c1, p1) \<Rightarrow>
      let hasDigit = isDigit c1 in
      case readDigits d sb0 c1 ok0 p1 of (sb, c, ok, p2) \<Rightarrow>
        if c = B CHR ''.'' then
          (case read d p2 of (c', ok', p') \<Rightarrow>
             readNumberTail d markedPos [] (sb @ [c]) False c' ok' p')
        else if c = B CHR ''#'' then
          (case read d p2 of (c', ok', p') \<Rightarrow>
             readNumberTail d markedPos sb [] True c' ok' p')
        else if length sb = 0 \<or> \<not> hasDigit then (zeroToken, False, markedPos)
        else if c = B CHR ''E'' \<or> c = B CHR ''e'' then
          (case read d p2 of (c', ok', p') \<Rightarrow>
             if c' = B CHR ''-''
             then (case read d p' of (c'', ok'', p'') \<Rightarrow>
                     readNumberTail d markedPos [] (sb @ [c] @ [c']) True c'' ok'' p'')
             else readNumberTail d markedPos [] (sb @ [c]) True c' ok' p')
        else (\<lparr>Value = sb, Kind = Integer\<rparr>, True, if ok then p2 - 1 else p2))"

section \<open>Operator words and CharStrings\<close>

text \<open>\<^verbatim>\<open>for !isDelimiter(ch) { outBuf = append(outBuf, ch); ch, ok = pr.read() }\<close>\<close>

function wordLoop :: "byte list \<Rightarrow> byte list \<Rightarrow> byte \<Rightarrow> bool \<Rightarrow> nat
    \<Rightarrow> byte list \<times> bool \<times> nat" where
  "wordLoop d outBuf ch ok p =
     (if \<not> isDelimiter ch
      then (case read d p of (ch', ok', p') \<Rightarrow> wordLoop d (outBuf @ [ch]) ch' ok' p')
      else (outBuf, ok, p))"
  by pat_completeness auto
termination
  by (relation "measure (\<lambda>(d, outBuf, ch, ok, p).
        length d - p + (if \<not> isDelimiter ch then 1 else 0))")
     (auto simp: read_def isDelimiter_def IsAsciiWhitespace_def split: if_splits)

text \<open>The word of the default case, from the first read to the push-back.\<close>

definition readWord :: "byte list \<Rightarrow> nat \<Rightarrow> byte list \<times> nat" where
  "readWord d p =
     (case read d p of (ch, ok, p1) \<Rightarrow>
      case read d p1 of (ch2, ok2, p2) \<Rightarrow>
      case wordLoop d [ch] ch2 ok2 p2 of (outBuf, ok3, p3) \<Rightarrow>
        (outBuf, if ok3 then p3 - 1 else p3))"

text \<open>
  The sum of two Go \<^verbatim>\<open>int\<close>s wraps around at 64 bits.
\<close>

definition wrap64 :: "int \<Rightarrow> int" where
  "wrap64 x = (x + 2 ^ 63) mod 2 ^ 64 - 2 ^ 63"

text \<open>
  \<open>readCharString\<close>: \<^verbatim>\<open>None\<close> is the run-time panic of the slice expression
  \<^verbatim>\<open>pr.data[pr.pos:maxL]\<close>, which needs \<^verbatim>\<open>0 <= pr.pos <= maxL <= cap(pr.data)\<close>; \<^verbatim>\<open>maxL\<close> is at
  most \<^verbatim>\<open>len(pr.data)\<close> after the clamp. Without a reader nothing grows.
\<close>

definition readCharString :: "byte list \<Rightarrow> nat \<Rightarrow> int \<Rightarrow> (Token \<times> nat) option" where
  "readCharString d p n =
     (let p1 = wrap64 (int p + 1);
          maxL0 = wrap64 (p1 + n);
          maxL = (if maxL0 \<ge> int (length d) then int (length d) else maxL0)
      in if 0 \<le> p1 \<and> p1 \<le> maxL
         then Some (\<lparr>Value = take (nat maxL - nat p1) (drop (nat p1) d), Kind = CharString\<rparr>,
                    nat (wrap64 (p1 + n)))
         else None)"

section \<open>The scanner\<close>

lemma skipComment_pos: "skipComment d ch ok p = (ch', ok', p') \<Longrightarrow> p \<le> p'"
proof (induction d ch ok p rule: skipComment.induct)
  case (1 d ch ok p)
  show ?case
  proof (cases "ok \<and> ch \<noteq> 13 \<and> ch \<noteq> 10")
    case True
    obtain c1 o1 p1 where r: "read d p = (c1, o1, p1)" by (cases "read d p") auto
    from r have "p \<le> p1" by (auto simp: read_def split: if_splits)
    moreover from "1.prems" True r have "skipComment d c1 o1 p1 = (ch', ok', p')"
      by (simp add: skipComment.simps [of d ch ok p])
    from "1.IH" [OF True r [symmetric] refl this] have "p1 \<le> p'" .
    ultimately show ?thesis by simp
  next
    case False
    with "1.prems" show ?thesis by (simp add: skipComment.simps [of d ch ok p])
  qed
qed

lemma skipWhitespace_after_read:
  assumes "read d p = (c0, ok0, p0)" and "skipWhitespace d c0 ok0 p0 = (ch, True, p1)"
  shows "p < length d \<and> p < p1"
proof -
  have "ok0"
  proof (rule ccontr)
    assume "\<not> ok0"
    with assms(2) show False by (simp add: skipWhitespace.simps [of d c0 ok0 p0])
  qed
  with assms(1) have "p < length d" "p0 = p + 1" by (auto simp: read_def split: if_splits)
  moreover have "p0 \<le> p1" using assms(2) by (rule skipWhitespace_pos)
  ultimately show ?thesis by simp
qed

text \<open>
  \<open>nextToken\<close> returns the token, the error and the position it leaves; \<^verbatim>\<open>None\<close> is a
  run-time panic (of \<open>readCharString\<close>). The \<^verbatim>\<open>switch\<close> on the first byte after the white
  space is the chain of tests, in the order of its cases.
\<close>

function nextToken :: "Token \<Rightarrow> byte list \<Rightarrow> nat \<Rightarrow> (Token \<times> error option \<times> nat) option" where
  "nextToken previous d p =
     (case read d p of (c0, ok0, p0) \<Rightarrow>
      case skipWhitespace d c0 ok0 p0 of (ch, ok, p1) \<Rightarrow>
        if \<not> ok then Some (kindToken EOF, None, p1)
        else if ch = B CHR ''['' then Some (kindToken StartArray, None, p1)
        else if ch = B CHR '']'' then Some (kindToken EndArray, None, p1)
        else if ch = B CHR ''{'' then Some (kindToken StartProc, None, p1)
        else if ch = B CHR ''}'' then Some (kindToken EndProc, None, p1)
        else if ch = B CHR ''/'' then Some (readName d p1 [])
        else if ch = B CHR ''>'' then
          (case read d p1 of (ch2, ok2, p2) \<Rightarrow>
             if ch2 \<noteq> B CHR ''>'' then Some (zeroToken, Some GtNotExpected, p2)
             else Some (kindToken EndDic, None, p2))
        else if ch = B CHR ''<'' then
          (case read d p1 of (v1, ok1, p2) \<Rightarrow>
             if v1 = B CHR ''<'' then Some (kindToken StartDic, None, p2)
             else Some (readHex d v1 ok1 p2 []))
        else if ch = B CHR ''%'' then
          (case read d p1 of (ch2, ok2, p2) \<Rightarrow>
           case skipComment d ch2 ok2 p2 of (ch3, ok3, p3) \<Rightarrow>
             nextToken previous d p3)
        else if ch = B CHR ''('' then
          (case readString d p1 0 [] of (outBuf, ok2, p2) \<Rightarrow>
             if \<not> ok2 then Some (zeroToken, Some StringEOF, p2)
             else Some (\<lparr>Value = outBuf, Kind = String\<rparr>, None, p2))
        else
          (case readNumber d (p1 - 1) of (token, okn, p2) \<Rightarrow>
             if okn then Some (token, None, p2)
             else
               (case readWord d p2 of (outBuf, p3) \<Rightarrow>
                  if outBuf = bytes ''RD'' \<or> outBuf = bytes ''-|'' then
                    (if Kind previous = Integer then
                       (case Token_Int previous of
                          None \<Rightarrow> Some (zeroToken, Some InvalidCharstringLength, p3)
                        | Some f \<Rightarrow>
                            (case readCharString d p3 f of
                               None \<Rightarrow> None
                             | Some (t, p4) \<Rightarrow> Some (t, None, p4)))
                     else Some (zeroToken, Some ExpectedInteger, p3))
                  else Some (\<lparr>Value = outBuf, Kind = Other\<rparr>, None, p3))))"
  by pat_completeness auto
termination
proof (relation "measure (\<lambda>(previous, d, p). length d - p)", goal_cases)
  case 1
  show ?case by simp
next
  case (2 previous d p x y xa ya xb yb xc yc xd yd xe ye xf yf xg yg)
  have r: "read d p = (x, xa, ya)" using 2 by simp
  have "xc" using 2 by simp
  then have s: "skipWhitespace d x xa ya = (xb, True, yc)" using 2 by simp
  have a: "p < length d \<and> p < yc" using r s by (rule skipWhitespace_after_read)
  have b: "yc \<le> ye" using 2 by (auto simp: read_def split: if_splits)
  have "skipComment d xd xe ye = (xf, xg, yg)" using 2 by simp
  then have c: "ye \<le> yg" by (rule skipComment_pos)
  from a b c have "length d - yg < length d - p" by arith
  then show ?case by simp
qed

section \<open>The tokenizer and its lookahead\<close>

text \<open>
  The fields of \<^verbatim>\<open>Tokenizer\<close> that the byte-slice mode uses; \<^verbatim>\<open>numberSb\<close> is scratch space
  of \<open>readNumber\<close>, \<^verbatim>\<open>src\<close> is nil. The three positions are naturals: the first \<^verbatim>\<open>read\<close>
  of \<open>SetPosition\<close> panics on a negative position.
\<close>

record Tokenizer =
  data :: "byte list"
  aError :: "error option"
  aToken :: Token
  aaError :: "error option"
  aaToken :: Token
  pos :: nat
  currentPos :: nat
  nextPos :: nat

text \<open>
  \<open>SetPosition\<close>: \<^verbatim>\<open>None\<close> is a panic, of the index expression \<^verbatim>\<open>pr.data[pr.pos]\<close> in \<^verbatim>\<open>read\<close>
  when the position is negative, or of one of the two scans.
\<close>

definition SetPosition :: "int \<Rightarrow> Tokenizer \<Rightarrow> Tokenizer option" where
  "SetPosition p tk =
     (if p < 0 then None
      else
        (case nextToken zeroToken (data tk) (nat p) of
           None \<Rightarrow> None
         | Some (t1, e1, p1) \<Rightarrow>
             (case nextToken t1 (data tk) p1 of
                None \<Rightarrow> None
              | Some (t2, e2, p2) \<Rightarrow>
                  Some (tk\<lparr>currentPos := nat p, aToken := t1, aError := e1, nextPos := p1,
                           aaToken := t2, aaError := e2, pos := p2\<rparr>))))"

definition NewTokenizer :: "byte list \<Rightarrow> Tokenizer option" where
  "NewTokenizer d =
     SetPosition 0 \<lparr>data = d, aError = None, aToken = zeroToken, aaError = None,
                    aaToken = zeroToken, pos = 0, currentPos = 0, nextPos = 0\<rparr>"

definition PeekToken :: "Tokenizer \<Rightarrow> Token \<times> error option" where
  "PeekToken tk = (aToken tk, aError tk)"

definition PeekPeekToken :: "Tokenizer \<Rightarrow> Token \<times> error option" where
  "PeekPeekToken tk = (aaToken tk, aaError tk)"

definition IsEOF :: "Tokenizer \<Rightarrow> bool" where
  "IsEOF tk = (Kind (fst (PeekToken tk)) = EOF)"

definition NextToken :: "Tokenizer \<Rightarrow> ((Token \<times> error option) \<times> Tokenizer) option" where
  "NextToken tk =
     (let r = PeekToken tk;
          tk1 = tk\<lparr>aToken := aaToken tk, aError := aaError tk,
                   currentPos := nextPos tk, nextPos := pos tk\<rparr>
      in if startsBinary (aaToken tk1)
         then Some (r, tk1\<lparr>aaToken := kindToken EOF, aaError := None\<rparr>)
         else
           (case nextToken (aaToken tk1) (data tk1) (pos tk1) of
              None \<Rightarrow> None
            | Some (t, e, p) \<Rightarrow> Some (r, tk1\<lparr>aaToken := t, aaError := e, pos := p\<rparr>)))"

definition CurrentPosition :: "Tokenizer \<Rightarrow> nat" where
  "CurrentPosition tk = currentPos tk"

definition StreamPosition :: "Tokenizer \<Rightarrow> nat" where
  "StreamPosition tk =
     (let p = currentPos tk;
          p1 = (if p < length (data tk) \<and> data tk ! p = 13 then p + 1 else p)
      in if p1 < length (data tk) \<and> data tk ! p1 = 10 then p1 + 1 else p1)"

text \<open>
  \<open>SkipBytes\<close>: \<^verbatim>\<open>None\<close> is the panic of \<^verbatim>\<open>pr.data[pr.currentPos:target]\<close> when the target is
  below the current position, or of \<open>SetPosition\<close>.
\<close>

definition SkipBytes :: "int \<Rightarrow> Tokenizer \<Rightarrow> (byte list \<times> Tokenizer) option" where
  "SkipBytes n tk =
     (let target0 = wrap64 (int (currentPos tk) + n);
          target = (if target0 > int (length (data tk)) then int (length (data tk)) else target0)
      in if int (currentPos tk) \<le> target
         then (case SetPosition target tk of
                 None \<Rightarrow> None
               | Some tk1 \<Rightarrow>
                   Some (take (nat target - currentPos tk) (drop (currentPos tk) (data tk)), tk1))
         else None)"

section \<open>Sequences of calls\<close>

text \<open>
  A client drives a tokenizer by the calls that change it. \<open>calls\<close> runs a list of them
  from left to right and stops at the first panic. \<open>PeekToken\<close>, \<open>PeekPeekToken\<close>,
  \<open>IsEOF\<close>, \<open>CurrentPosition\<close> and, on a byte slice, \<open>StreamPosition\<close> only read the
  tokenizer.
\<close>

datatype call = CallNextToken | CallSetPosition int | CallSkipBytes int

fun doCall :: "call \<Rightarrow> Tokenizer \<Rightarrow> Tokenizer option" where
  "doCall CallNextToken tk = map_option snd (NextToken tk)"
| "doCall (CallSetPosition p) tk = SetPosition p tk"
| "doCall (CallSkipBytes n) tk = map_option snd (SkipBytes n tk)"

fun calls :: "call list \<Rightarrow> Tokenizer \<Rightarrow> Tokenizer option" where
  "calls [] tk = Some tk"
| "calls (c # cs) tk = (case doCall c tk of None \<Rightarrow> None | Some tk1 \<Rightarrow> calls cs tk1)"

text \<open>\<open>runFrom d cs\<close> is the tokenizer that the calls \<open>cs\<close> leave of a new tokenizer on \<open>d\<close>.\<close>

definition runFrom :: "byte list \<Rightarrow> call list \<Rightarrow> Tokenizer option" where
  "runFrom d cs = (case NewTokenizer d of None \<Rightarrow> None | Some tk \<Rightarrow> calls cs tk)"

text \<open>
  A forward scan: \<open>n\<close> calls of \<open>NextToken\<close>. It returns the token of the last call (the
  zero token when there was none) and the tokenizer; \<open>scanFrom d n\<close> is the forward scan
  of a new tokenizer on \<open>d\<close>.
\<close>

fun forward :: "nat \<Rightarrow> Tokenizer \<Rightarrow> (Token \<times> Tokenizer) option" where
  "forward 0 tk = Some (zeroToken, tk)"
| "forward (Suc n) tk =
     (case forward n tk of
        None \<Rightarrow> None
      | Some (t0, tk1) \<Rightarrow>
          (case NextToken tk1 of None \<Rightarrow> None | Some (r, tk2) \<Rightarrow> Some (fst r, tk2)))"

definition scanFrom :: "byte list \<Rightarrow> nat \<Rightarrow> (Token \<times> Tokenizer) option" where
  "scanFrom d n = (case NewTokenizer d of None \<Rightarrow> None | Some tk \<Rightarrow> forward n tk)"

section \<open>Properties of tokenizer states\<close>

text \<open>
  The word at \<open>p\<close> is \<^verbatim>\<open>RD\<close> or \<^verbatim>\<open>-|\<close>: scanned with the zero token as the previous one, it
  is the error that asks for an integer.
\<close>

definition charStringTrigger :: "byte list \<Rightarrow> nat \<Rightarrow> bool" where
  "charStringTrigger d p =
     (case nextToken zeroToken d p of
        None \<Rightarrow> False
      | Some (t, e, p1) \<Rightarrow> e = Some ExpectedInteger)"

text \<open>
  What the two lookahead slots hold in terms of \<open>nextToken\<close>: the +1 slot was scanned at
  \<open>currentPos\<close> after the token \<open>prev\<close> and ends at \<open>nextPos\<close>, the +2 slot was scanned at
  \<open>nextPos\<close> after the +1 token and ends at \<open>pos\<close>, or the slot is the end of file that
  \<open>NextToken\<close> puts after a token that starts binary data.
\<close>

definition slotScanned :: "Token \<Rightarrow> byte list \<Rightarrow> nat \<Rightarrow> Token \<Rightarrow> error option \<Rightarrow> nat \<Rightarrow> bool" where
  "slotScanned prev d p t e p1 =
     ((startsBinary prev \<and> t = kindToken EOF \<and> e = None \<and> p1 = p)
      \<or> nextToken prev d p = Some (t, e, p1))"

definition lookahead :: "Token \<Rightarrow> Tokenizer \<Rightarrow> bool" where
  "lookahead prev tk =
     (slotScanned prev (data tk) (currentPos tk) (aToken tk) (aError tk) (nextPos tk)
      \<and> slotScanned (aToken tk) (data tk) (nextPos tk) (aaToken tk) (aaError tk) (pos tk))"

text \<open>The order of the three positions.\<close>

definition inOrder :: "Tokenizer \<Rightarrow> bool" where
  "inOrder tk = (currentPos tk \<le> nextPos tk \<and> nextPos tk \<le> pos tk)"

text \<open>
  A CharString lies within the data when it holds as many bytes as the integer before it
  declares (\<open>readCharString\<close> cuts the bytes at the end of the data). \<open>fitsAfter prev t\<close>
  says so of a token \<open>t\<close> that is scanned after the token \<open>prev\<close>, and \<open>charStringFits\<close> of
  the second lookahead slot of a tokenizer, which is scanned after the first.
\<close>

definition fitsAfter :: "Token \<Rightarrow> Token \<Rightarrow> bool" where
  "fitsAfter prev t =
     (Kind t \<noteq> CharString \<or> Token_Int prev = Some (int (length (Value t))))"

definition charStringFits :: "Tokenizer \<Rightarrow> bool" where
  "charStringFits tk = fitsAfter (aToken tk) (aaToken tk)"

text \<open>
  A run stays within the data when, since the tokenizer was last positioned (when it was
  built, by \<open>SetPosition\<close> or by \<open>SkipBytes\<close>), the position given to \<open>SetPosition\<close> was at
  most \<^verbatim>\<open>len(data)\<close> and every CharString scanned into the second slot lies within the
  data. \<open>staysWithin b c tk tk1\<close> is the step of one call \<open>c\<close> that leads from \<open>tk\<close> to \<open>tk1\<close>,
  where \<open>b\<close> says whether the run stayed within the data so far; \<open>withinDataFrom\<close> follows
  a list of calls, and \<open>withinData\<close> starts at a new tokenizer.
\<close>

fun staysWithin :: "bool \<Rightarrow> call \<Rightarrow> Tokenizer \<Rightarrow> Tokenizer \<Rightarrow> bool" where
  "staysWithin b CallNextToken tk tk1 = (b \<and> charStringFits tk1)"
| "staysWithin b (CallSetPosition p) tk tk1 =
     (p \<le> int (length (data tk)) \<and> charStringFits tk1)"
| "staysWithin b (CallSkipBytes n) tk tk1 = charStringFits tk1"

fun withinDataFrom :: "bool \<Rightarrow> call list \<Rightarrow> Tokenizer \<Rightarrow> bool" where
  "withinDataFrom b [] tk = b"
| "withinDataFrom b (c # cs) tk =
     (case doCall c tk of
        None \<Rightarrow> False
      | Some tk1 \<Rightarrow> withinDataFrom (staysWithin b c tk tk1) cs tk1)"

definition withinData :: "call list \<Rightarrow> Tokenizer \<Rightarrow> bool" where
  "withinData cs tk = withinDataFrom (charStringFits tk) cs tk"

text \<open>Each slot that holds an error holds the zero token.\<close>

definition errorSlotsZero :: "Tokenizer \<Rightarrow> bool" where
  "errorSlotsZero tk =
     ((aError tk = None \<or> aToken tk = zeroToken) \<and> (aaError tk = None \<or> aaToken tk = zeroToken))"

text \<open>The byte that \<open>readNumber\<close> looks at after the optional sign.\<close>

definition afterSign :: "byte list \<Rightarrow> nat \<Rightarrow> byte" where
  "afterSign d p =
     (case read d p of (c0, ok0, p0) \<Rightarrow>
        if c0 = B CHR ''+'' \<or> c0 = B CHR ''-'' then fst (read d p0) else c0)"

section \<open>The value of a literal string\<close>

text \<open>
  Section 4.6 of the specification, written as a decoder of its own, to compare the string
  loop of the source with. \<open>specLiteralValue depth cs\<close> reads the bytes \<open>cs\<close> that follow
  the opening parenthesis, at the nesting depth \<open>depth\<close>, and returns the value of the
  string with the bytes that follow its closing parenthesis; \<^verbatim>\<open>None\<close> is a string that the
  input ends within. An unescaped \<^verbatim>\<open>(\<close> is emitted and opens a level; an unescaped \<^verbatim>\<open>)\<close>
  ends the string at depth 0, and is emitted and closes a level otherwise; an unescaped
  carriage return, alone or with the line feed that follows it, gives one line feed; a
  backslash starts an escape; any other byte is emitted as it is.

  \<open>specEscapeValue\<close> reads what follows a backslash and returns the bytes it emits with
  the bytes that follow the escape: \<^verbatim>\<open>n r t b f\<close> give their control byte; the parentheses
  and the backslash give themselves; a carriage return, with the line feed that follows it
  if there is one, and a line feed give nothing; one to three octal digits give the byte
  of that value, truncated to 8 bits; any other byte gives itself.
\<close>

definition isOctal :: "byte \<Rightarrow> bool" where
  "isOctal c = (B CHR ''0'' \<le> c \<and> c \<le> B CHR ''7'')"

definition octalValue :: "byte list \<Rightarrow> byte" where
  "octalValue ds = foldl (\<lambda>v c. 8 * v + (c - B CHR ''0'')) 0 ds"

fun specEscapeValue :: "byte list \<Rightarrow> (byte list \<times> byte list) option" where
  "specEscapeValue [] = None"
| "specEscapeValue (c # cs) =
     (if c = B CHR ''n'' then Some ([10], cs)
      else if c = B CHR ''r'' then Some ([13], cs)
      else if c = B CHR ''t'' then Some ([9], cs)
      else if c = B CHR ''b'' then Some ([8], cs)
      else if c = B CHR ''f'' then Some ([12], cs)
      else if c = B CHR ''('' \<or> c = B CHR '')'' \<or> c = 92 then Some ([c], cs)
      else if c = 13 then Some ([], if cs \<noteq> [] \<and> hd cs = 10 then tl cs else cs)
      else if c = 10 then Some ([], cs)
      else if isOctal c then
        (let ds = c # takeWhile isOctal (take 2 cs)
         in Some ([octalValue ds], drop (length ds) (c # cs)))
      else Some ([c], cs))"

text \<open>An escape takes at least one byte, so the decoder ends.\<close>

lemma specEscapeValue_length:
  "specEscapeValue cs = Some (e, cs1) \<Longrightarrow> length cs1 < length cs"
  by (cases cs) (auto simp: Let_def split: if_splits)

text \<open>\<open>emit e r\<close> puts the bytes \<open>e\<close> in front of the value that \<open>r\<close> holds.\<close>

definition emit :: "byte list \<Rightarrow> (byte list \<times> byte list) option
    \<Rightarrow> (byte list \<times> byte list) option" where
  "emit e r = map_option (\<lambda>(v, rest). (e @ v, rest)) r"

function specLiteralValue :: "nat \<Rightarrow> byte list \<Rightarrow> (byte list \<times> byte list) option" where
  "specLiteralValue depth [] = None"
| "specLiteralValue depth (c # cs) =
     (if c = B CHR ''('' then emit [c] (specLiteralValue (depth + 1) cs)
      else if c = B CHR '')'' then
        (if depth = 0 then Some ([], cs) else emit [c] (specLiteralValue (depth - 1) cs))
      else if c = 92 then
        (case specEscapeValue cs of
           None \<Rightarrow> None
         | Some (e, cs1) \<Rightarrow> emit e (specLiteralValue depth cs1))
      else if c = 13 then
        (if cs \<noteq> [] \<and> hd cs = 10 then emit [10] (specLiteralValue depth (tl cs))
         else emit [10] (specLiteralValue depth cs))
      else emit [c] (specLiteralValue depth cs))"
  by pat_completeness auto
termination
  by (relation "measure (\<lambda>(depth, cs). length cs)")
     (auto dest: specEscapeValue_length)

section \<open>Errors come with the zero token\<close>

declare skipWhitespace.simps [simp del] skipComment.simps [simp del] readName.simps [simp del]
  readHex.simps [simp del] readString.simps [simp del] readDigits.simps [simp del]
  wordLoop.simps [simp del] nextToken.simps [simp del] parseDigits.simps [simp del]
  decimalDigits.simps [simp del] bitlen.simps [simp del] specEscapeValue.simps [simp del]
  specLiteralValue.simps [simp del]

lemma readName_error_zero: "readName d p out = (t, Some e, p') \<Longrightarrow> t = zeroToken"
proof (induction d p out rule: readName.induct)
  case (1 d p outBuf)
  from "1.prems" "1.IH" show ?case
    by (subst (asm) readName.simps) (auto split: prod.splits if_splits)
qed

lemma readHex_error_zero: "readHex d v ok p out = (t, Some e, p') \<Longrightarrow> t = zeroToken"
proof (induction d v ok p out rule: readHex.induct)
  case (1 d v1 ok1 p outBuf)
  from "1.prems" "1.IH" show ?case
    by (subst (asm) readHex.simps) (auto split: prod.splits if_splits)
qed

lemma nextToken_error_zero: "nextToken prev d p = Some (t, Some e, p') \<Longrightarrow> t = zeroToken"
proof (induction prev d p rule: nextToken.induct)
  case (1 previous d p)
  from "1.prems" "1.IH" show ?case
    by (subst (asm) nextToken.simps)
       (auto simp: kindToken_def split: prod.splits if_splits option.splits
             dest: readName_error_zero readHex_error_zero)
qed

lemma nextToken_slot_zero:
  "nextToken prev d p = Some (t, e, p') \<Longrightarrow> e = None \<or> t = zeroToken"
  by (cases e) (auto dest: nextToken_error_zero)

lemma SetPosition_errorSlotsZero:
  assumes "SetPosition p tk = Some tk1"
  shows "errorSlotsZero tk1"
proof -
  from assms obtain t1 e1 p1 t2 e2 p2 where
    a: "nextToken zeroToken (data tk) (nat p) = Some (t1, e1, p1)" and
    b: "nextToken t1 (data tk) p1 = Some (t2, e2, p2)" and
    c: "tk1 = tk\<lparr>currentPos := nat p, aToken := t1, aError := e1, nextPos := p1,
                     aaToken := t2, aaError := e2, pos := p2\<rparr>"
    by (auto simp: SetPosition_def split: if_splits option.splits)
  from nextToken_slot_zero [OF a] nextToken_slot_zero [OF b] c show ?thesis
    by (simp add: errorSlotsZero_def)
qed

lemma NextToken_errorSlotsZero:
  assumes "errorSlotsZero tk" and "NextToken tk = Some (r, tk1)"
  shows "errorSlotsZero tk1"
proof (cases "startsBinary (aaToken tk)")
  case True
  with assms show ?thesis
    by (auto simp: NextToken_def errorSlotsZero_def Let_def)
next
  case False
  with assms(2) obtain t e p where
    a: "nextToken (aaToken tk) (data tk) (pos tk) = Some (t, e, p)" and
    b: "tk1 = tk\<lparr>aToken := aaToken tk, aError := aaError tk, currentPos := nextPos tk,
                     nextPos := pos tk, aaToken := t, aaError := e, pos := p\<rparr>"
    by (auto simp: NextToken_def Let_def split: option.splits)
  from nextToken_slot_zero [OF a] assms(1) b show ?thesis
    by (simp add: errorSlotsZero_def)
qed

lemma doCall_errorSlotsZero:
  assumes "errorSlotsZero tk" and "doCall c tk = Some tk1"
  shows "errorSlotsZero tk1"
proof (cases c)
  case CallNextToken
  with assms show ?thesis by (auto dest: NextToken_errorSlotsZero)
next
  case (CallSetPosition p)
  with assms show ?thesis by (auto dest: SetPosition_errorSlotsZero)
next
  case (CallSkipBytes n)
  with assms show ?thesis
    by (auto simp: SkipBytes_def Let_def split: if_splits option.splits
             dest: SetPosition_errorSlotsZero)
qed

lemma calls_errorSlotsZero:
  "errorSlotsZero tk \<Longrightarrow> calls cs tk = Some tk1 \<Longrightarrow> errorSlotsZero tk1"
proof (induction cs arbitrary: tk)
  case Nil
  then show ?case by simp
next
  case (Cons c cs)
  from Cons.prems obtain tk2 where c: "doCall c tk = Some tk2" and r: "calls cs tk2 = Some tk1"
    by (auto split: option.splits)
  from Cons.prems(1) c have "errorSlotsZero tk2" by (rule doCall_errorSlotsZero)
  from Cons.IH [OF this r] show ?case .
qed

lemma reachable_errorSlotsZero:
  assumes "NewTokenizer d = Some tk0" and "calls cs tk0 = Some tk"
  shows "errorSlotsZero tk"
proof -
  from assms(1) have "errorSlotsZero tk0"
    unfolding NewTokenizer_def by (rule SetPosition_errorSlotsZero)
  from this assms(2) show ?thesis by (rule calls_errorSlotsZero)
qed

text \<open>
  Claim C4, as the code has it. In every state that the calls of a client reach from a new
  tokenizer, a non-nil error of \<open>PeekToken\<close>, \<open>PeekPeekToken\<close> or \<open>NextToken\<close> comes with
  the zero token \<^verbatim>\<open>Token{}\<close>: its value is empty and its kind is 0, the blank constant
  below \<open>EOF\<close>, not \<open>EOF\<close>.
\<close>

theorem error_token_is_zero:
  assumes "NewTokenizer d = Some tk0" and "calls cs tk0 = Some tk"
  shows "(snd (PeekToken tk) \<noteq> None \<longrightarrow>
            Kind (fst (PeekToken tk)) = KindZero \<and> Value (fst (PeekToken tk)) = [])
       \<and> (snd (PeekPeekToken tk) \<noteq> None \<longrightarrow>
            Kind (fst (PeekPeekToken tk)) = KindZero \<and> Value (fst (PeekPeekToken tk)) = [])
       \<and> (\<forall>t e tk1. NextToken tk = Some ((t, Some e), tk1) \<longrightarrow>
            Kind t = KindZero \<and> Value t = [])"
proof -
  from assms have "errorSlotsZero tk" by (rule reachable_errorSlotsZero)
  then show ?thesis
    by (auto simp: errorSlotsZero_def PeekToken_def PeekPeekToken_def NextToken_def Let_def
          zeroToken_def split: if_splits option.splits)
qed

theorem error_token_is_zero_witness:
  "map_option (\<lambda>tk. (snd (PeekToken tk), Kind (fst (PeekToken tk)), Value (fst (PeekToken tk))))
     (runFrom (bytes ''a >'') [CallNextToken]) = Some (Some GtNotExpected, KindZero, [])"
proof -
  have "map_option (\<lambda>tk. snd (PeekToken tk)) (runFrom (bytes ''a >'') [CallNextToken])
          = Some (Some GtNotExpected)"
    by code_simp
  then obtain tk0 tk where a: "NewTokenizer (bytes ''a >'') = Some tk0"
    and b: "calls [CallNextToken] tk0 = Some tk"
    and c: "snd (PeekToken tk) = Some GtNotExpected"
    by (auto simp: runFrom_def split: option.splits)
  from error_token_is_zero [OF a b] c
  have "Kind (fst (PeekToken tk)) = KindZero \<and> Value (fst (PeekToken tk)) = []" by simp
  with a b c show ?thesis by (simp add: runFrom_def)
qed

text \<open>
  The claim as stated fails: on the input \<^verbatim>\<open>>\<close> the first token comes with an error and
  its kind is not \<open>EOF\<close>.
\<close>

theorem error_token_kind_counterexample:
  "map_option fst (NextToken (the (NewTokenizer (bytes ''>''))))
     = Some (\<lparr>Value = [], Kind = KindZero\<rparr>, Some GtNotExpected)
   \<and> Kind (fst (PeekToken (the (NewTokenizer (bytes ''>''))))) \<noteq> EOF
   \<and> snd (PeekToken (the (NewTokenizer (bytes ''>'')))) = Some GtNotExpected"
  by code_simp

text \<open>
  Claim C10. In every state that the calls of a client reach from a new tokenizer, if
  \<open>PeekToken\<close> returns a non-nil error then \<open>IsEOF\<close> is false: the token stored with the
  error is the zero token, whose kind is not \<open>EOF\<close>.
\<close>

theorem IsEOF_false_on_error:
  assumes "NewTokenizer d = Some tk0" and "calls cs tk0 = Some tk"
    and "snd (PeekToken tk) \<noteq> None"
  shows "\<not> IsEOF tk"
proof -
  from assms(1,2) have "errorSlotsZero tk" by (rule reachable_errorSlotsZero)
  with assms(3) have "aToken tk = zeroToken"
    by (auto simp: errorSlotsZero_def PeekToken_def)
  then show ?thesis by (simp add: IsEOF_def PeekToken_def zeroToken_def)
qed

theorem IsEOF_false_on_error_witness:
  "map_option (\<lambda>tk. (snd (PeekToken tk), IsEOF tk)) (runFrom (bytes ''(abc'') [])
     = Some (Some StringEOF, False)"
proof -
  have "map_option (\<lambda>tk. snd (PeekToken tk)) (runFrom (bytes ''(abc'') [])
          = Some (Some StringEOF)"
    by code_simp
  then obtain tk0 tk where a: "NewTokenizer (bytes ''(abc'') = Some tk0"
    and b: "calls [] tk0 = Some tk"
    and c: "snd (PeekToken tk) = Some StringEOF"
    by (auto simp: runFrom_def split: option.splits)
  from c have "snd (PeekToken tk) \<noteq> None" by simp
  from IsEOF_false_on_error [OF a b this] have "\<not> IsEOF tk" .
  with a b c show ?thesis by (simp add: runFrom_def)
qed

section \<open>The number scanner and digits\<close>

lemma readDigits_stop: "\<not> isDigit c \<Longrightarrow> readDigits d sb c ok p = (sb, c, ok, p)"
  by (simp add: readDigits.simps)

text \<open>
  Claim C6, as the code has it. \<open>readNumber\<close> asks for a decimal digit only where the byte
  after the optional sign is neither a digit nor \<^verbatim>\<open>.\<close> nor \<^verbatim>\<open>#\<close>: then it declines and
  leaves the position where it was on entry. Where that byte is \<^verbatim>\<open>.\<close> it accepts, with
  no digit before the point, and returns a token of kind \<open>Float\<close>.
\<close>

theorem readNumber_requires_digit:
  "(\<not> isDigit (afterSign d p) \<and> afterSign d p \<noteq> B CHR ''.'' \<and> afterSign d p \<noteq> B CHR ''#''
      \<longrightarrow> readNumber d p = (zeroToken, False, p))
   \<and> (afterSign d p = B CHR ''.''
      \<longrightarrow> fst (snd (readNumber d p)) \<and> Kind (fst (readNumber d p)) = Float)"
proof -
  obtain c0 ok0 p0 where r0: "read d p = (c0, ok0, p0)" by (cases "read d p") auto
  obtain c1 ok1 p1 where r1: "read d p0 = (c1, ok1, p1)" by (cases "read d p0") auto
  have nd: "\<not> isDigit (B CHR ''.'')" by (simp add: isDigit_def B_def)
  show ?thesis
  proof (cases "c0 = B CHR ''+'' \<or> c0 = B CHR ''-''")
    case True
    then have a: "afterSign d p = c1" by (simp add: afterSign_def r0 r1)
    have "\<not> isDigit c1 \<Longrightarrow> c1 \<noteq> B CHR ''.'' \<Longrightarrow> c1 \<noteq> B CHR ''#''
            \<Longrightarrow> readNumber d p = (zeroToken, False, p)"
      using True by (simp add: readNumber_def r0 r1 readDigits_stop)
    moreover have "c1 = B CHR ''.'' \<Longrightarrow>
        fst (snd (readNumber d p)) \<and> Kind (fst (readNumber d p)) = Float"
      using True nd
      by (simp add: readNumber_def r0 r1 readDigits_stop readNumberTail_def Let_def
               split: prod.splits)
    ultimately show ?thesis using a by simp
  next
    case False
    then have a: "afterSign d p = c0" by (simp add: afterSign_def r0)
    have "\<not> isDigit c0 \<Longrightarrow> c0 \<noteq> B CHR ''.'' \<Longrightarrow> c0 \<noteq> B CHR ''#''
            \<Longrightarrow> readNumber d p = (zeroToken, False, p)"
      using False by (simp add: readNumber_def r0 readDigits_stop)
    moreover have "c0 = B CHR ''.'' \<Longrightarrow>
        fst (snd (readNumber d p)) \<and> Kind (fst (readNumber d p)) = Float"
      using False nd
      by (simp add: readNumber_def r0 readDigits_stop readNumberTail_def Let_def
               split: prod.splits)
    ultimately show ?thesis using a by simp
  qed
qed

theorem readNumber_requires_digit_witness:
  "readNumber (bytes ''+x'') 0 = (zeroToken, False, 0)
   \<and> fst (snd (readNumber (bytes ''+.5'') 0)) \<and> Kind (fst (readNumber (bytes ''+.5'') 0)) = Float"
proof -
  have a: "\<not> isDigit (afterSign (bytes ''+x'') 0) \<and> afterSign (bytes ''+x'') 0 \<noteq> B CHR ''.''
           \<and> afterSign (bytes ''+x'') 0 \<noteq> B CHR ''#''"
    by code_simp
  have b: "afterSign (bytes ''+.5'') 0 = B CHR ''.''"
    by code_simp
  from readNumber_requires_digit [of "bytes ''+x''" 0] a
       readNumber_requires_digit [of "bytes ''+.5''" 0] b
  show ?thesis by blast
qed

text \<open>
  The claim as stated fails: \<^verbatim>\<open>.5\<close>, \<^verbatim>\<open>.\<close> and \<^verbatim>\<open>+.5\<close> have no digit before the point and
  \<open>readNumber\<close> accepts each of them as a \<open>Float\<close>.
\<close>

theorem readNumber_no_digit_counterexample:
  "readNumber (bytes ''.5'') 0 = (\<lparr>Value = bytes ''.5'', Kind = Float\<rparr>, True, 2)
   \<and> readNumber (bytes ''.'') 0 = (\<lparr>Value = bytes ''.'', Kind = Float\<rparr>, True, 1)
   \<and> readNumber (bytes ''+.5'') 0 = (\<lparr>Value = bytes ''+.5'', Kind = Float\<rparr>, True, 3)"
  by code_simp

text \<open>
  Claim C5 at the numeral of the claim. The digit loop after \<^verbatim>\<open>#\<close> takes decimal digits
  only, so on \<^verbatim>\<open>16#FFFE\<close> the scanner declines and rewinds, and the bytes come out as one
  operator word.
\<close>

theorem radix_hex_digits_declined:
  "readNumber (bytes ''16#FFFE'') 0 = (zeroToken, False, 0)
   \<and> map_option fst (scanFrom (bytes ''16#FFFE'') 1)
       = Some \<lparr>Value = bytes ''16#FFFE'', Kind = Other\<rparr>"
  by code_simp

text \<open>With decimal digits after \<^verbatim>\<open>#\<close> the value is converted: \<^verbatim>\<open>8#17\<close> is 15.\<close>

lemma radix_decimal_digits_example:
  "map_option fst (scanFrom (bytes ''8#17'') 1) = Some \<lparr>Value = bytes ''15'', Kind = Integer\<rparr>"
  by code_simp

section \<open>The start of a stream\<close>

text \<open>
  Claim C7, as the code has it. If the byte at \<open>CurrentPosition\<close> is a carriage return and
  no line feed follows it, \<open>StreamPosition\<close> returns the position after the carriage
  return: it advances past the lone \<^verbatim>\<open>\r\<close>.
\<close>

theorem StreamPosition_lone_CR:
  assumes "currentPos tk < length (data tk)"
    and "data tk ! currentPos tk = 13"
    and "\<not> (currentPos tk + 1 < length (data tk) \<and> data tk ! (currentPos tk + 1) = 10)"
  shows "StreamPosition tk = CurrentPosition tk + 1"
  using assms by (auto simp: StreamPosition_def CurrentPosition_def Let_def)

theorem StreamPosition_lone_CR_witness:
  "map_option (\<lambda>tk. (CurrentPosition tk, StreamPosition tk))
     (runFrom (bytes ''stream'' @ [13] @ bytes ''abc'') [CallNextToken]) = Some (6, 7)"
proof -
  have "map_option (\<lambda>tk. (data tk, currentPos tk))
          (runFrom (bytes ''stream'' @ [13] @ bytes ''abc'') [CallNextToken])
        = Some (bytes ''stream'' @ [13] @ bytes ''abc'', 6)"
    by code_simp
  then obtain tk where a: "runFrom (bytes ''stream'' @ [13] @ bytes ''abc'') [CallNextToken] = Some tk"
    and b: "data tk = bytes ''stream'' @ [13] @ bytes ''abc''" and c: "currentPos tk = 6"
    by auto
  have d: "currentPos tk < length (data tk)" by (simp add: b c bytes_def)
  have e: "data tk ! currentPos tk = 13" by (simp add: b c bytes_def)
  have f: "\<not> (currentPos tk + 1 < length (data tk) \<and> data tk ! (currentPos tk + 1) = 10)"
    by (simp add: b c bytes_def B_def)
  from StreamPosition_lone_CR [OF d e f] a c show ?thesis
    by (simp add: CurrentPosition_def)
qed

text \<open>
  The claim as stated fails: on the two bytes \<^verbatim>\<open>\r x\<close> the current position is 0, the
  byte there is a carriage return, the next byte is not a line feed, and \<open>StreamPosition\<close>
  is 1.
\<close>

theorem StreamPosition_lone_CR_counterexample:
  "map_option (\<lambda>tk. (CurrentPosition tk, data tk ! CurrentPosition tk,
                     data tk ! (CurrentPosition tk + 1), StreamPosition tk))
     (NewTokenizer ([13] @ bytes ''x'')) = Some (0, 13, B CHR ''x'', 1)"
  by code_simp

section \<open>Binary data and CharStrings\<close>

text \<open>
  Claim C1 at a tokenizer primed on \<^verbatim>\<open>stream b\<close>. \<open>SetPosition\<close> scans twice without the
  test that \<open>NextToken\<close> makes: the +1 slot holds the word \<^verbatim>\<open>stream\<close>, ending at 6, and the
  +2 slot holds the word \<^verbatim>\<open>b\<close> scanned after it, with the position at 8.
\<close>

theorem priming_scans_past_stream:
  "map_option (\<lambda>tk. (PeekToken tk, PeekPeekToken tk, nextPos tk, pos tk))
     (NewTokenizer (bytes ''stream b''))
   = Some ((\<lparr>Value = bytes ''stream'', Kind = Other\<rparr>, None),
           (\<lparr>Value = bytes ''b'', Kind = Other\<rparr>, None), 6, 8)"
  by code_simp

text \<open>
  On the path through \<open>NextToken\<close> the property holds: when the token it moves into the +1
  slot starts binary data, the +2 slot is the end of file, and the position stays at the
  end of that token.
\<close>

lemma NextToken_stops_before_binary:
  assumes "NextToken tk = Some (r, tk1)" and "startsBinary (fst (PeekToken tk1))"
  shows "PeekPeekToken tk1 = (kindToken EOF, None) \<and> pos tk1 = nextPos tk1 \<and> pos tk1 = pos tk"
  using assms
  by (auto simp: NextToken_def PeekToken_def PeekPeekToken_def Let_def split: if_splits option.splits)

text \<open>
  Claim C9 at the input \<^verbatim>\<open>x 3 RD\<close>. The new tokenizer holds the integer 3 in its +2 slot;
  \<open>NextToken\<close> then scans \<^verbatim>\<open>RD\<close> at the end of the data, and \<open>readCharString\<close> slices
  \<^verbatim>\<open>pr.data[7:6]\<close>, which panics. The same happens while a tokenizer is built on \<^verbatim>\<open>3 RD\<close>,
  and for the negative length of \<^verbatim>\<open>-1 RD abc\<close>.
\<close>

theorem NextToken_panics_on_short_CharString:
  "map_option PeekPeekToken (NewTokenizer (bytes ''x 3 RD''))
     = Some (\<lparr>Value = bytes ''3'', Kind = Integer\<rparr>, None)
   \<and> Option.bind (NewTokenizer (bytes ''x 3 RD'')) NextToken = None
   \<and> NewTokenizer (bytes ''3 RD'') = None
   \<and> NewTokenizer (bytes ''-1 RD abc'') = None"
  by code_simp

section \<open>Line ends in literal strings\<close>

text \<open>Reading at a position, in terms of the bytes from that position on.\<close>

lemma drop_Cons_nth:
  assumes "drop p d = c # cs"
  shows "p < length d" and "d ! p = c" and "drop (Suc p) d = cs"
proof -
  show a: "p < length d" using assms by (cases "p < length d") auto
  from Cons_nth_drop_Suc [OF a] assms show "d ! p = c" and "drop (Suc p) d = cs" by auto
qed

lemma read_Cons: "drop p d = c # cs \<Longrightarrow> read d p = (c, True, Suc p)"
  using drop_Cons_nth [of p d c cs] by (simp add: read_def)

text \<open>Up to three octal digits, as \<open>readEscape\<close> computes their value.\<close>

lemma byte_and_255: "(x :: byte) AND 255 = x"
proof -
  have m: "(255 :: byte) = mask 8" by (simp add: mask_eq_exp_minus_1)
  have "take_bit 8 x = x" by (rule take_bit_word_eq_self) simp
  then show ?thesis unfolding m take_bit_eq_mask [symmetric] .
qed

lemma octalValue_simps:
  "octalValue [a] = a - B CHR ''0''"
  "octalValue [a, b] = push_bit 3 (a - B CHR ''0'') + b - B CHR ''0''"
  "octalValue [a, b, c] =
     (push_bit 3 (push_bit 3 (a - B CHR ''0'') + b - B CHR ''0'') + c - B CHR ''0'') AND 255"
  by (simp_all add: octalValue_def push_bit_eq_mult byte_and_255 mult.commute)

text \<open>
  \<open>readEscape\<close> does what \<open>specEscapeValue\<close> says, when a byte follows the escape (as in every
  string that is closed).
\<close>

lemma readEscape_specEscapeValue:
  assumes d: "drop q d = cs" and e: "specEscapeValue cs = Some (e, cs1)" and n: "cs1 \<noteq> []"
  shows "\<exists>ch q1. readEscape d q = (ch, True, q1, e = []) \<and> (e \<noteq> [] \<longrightarrow> e = [ch])
           \<and> drop q1 d = cs1"
proof -
  from e obtain c cs' where cs: "cs = c # cs'" by (cases cs) (auto simp: specEscapeValue.simps)
  from d cs have r1: "read d q = (c, True, Suc q)" and d1: "drop (Suc q) d = cs'"
    using read_Cons [of q d c cs'] drop_Cons_nth [of q d c cs'] by auto
  note ev = e [unfolded cs specEscapeValue.simps]
  consider (ctrl) "c = B CHR ''n'' \<or> c = B CHR ''r'' \<or> c = B CHR ''t'' \<or> c = B CHR ''b''
                   \<or> c = B CHR ''f''"
    | (cr) "c = 13" | (lf) "c = 10"
    | (oct) "isOctal c"
    | (other) "c \<noteq> B CHR ''n''" "c \<noteq> B CHR ''r''" "c \<noteq> B CHR ''t''" "c \<noteq> B CHR ''b''"
        "c \<noteq> B CHR ''f''" "c \<noteq> 13" "c \<noteq> 10" "\<not> isOctal c"
    by blast
  then show ?thesis
  proof cases
    case ctrl
    with ev d1 show ?thesis
      by (auto simp: readEscape_def r1 B_def split: if_splits)
  next
    case cr
    with ev n obtain x cs'' where c2: "cs' = x # cs''" by (cases cs') (auto simp: B_def)
    from d1 c2 have r2: "read d (Suc q) = (x, True, Suc (Suc q))"
      and d2: "drop (Suc (Suc q)) d = cs''"
      using read_Cons [of "Suc q" d x cs''] drop_Cons_nth [of "Suc q" d x cs''] by auto
    from cr ev c2 d1 d2 show ?thesis
      by (auto simp: readEscape_def r1 r2 B_def split: if_splits)
  next
    case lf
    with ev d1 show ?thesis
      by (auto simp: readEscape_def r1 B_def split: if_splits)
  next
    case other
    with ev d1 show ?thesis
      by (auto simp: readEscape_def r1 B_def isOctal_def split: if_splits)
  next
    case oct
    then have no: "c \<noteq> B CHR ''n''" "c \<noteq> B CHR ''r''" "c \<noteq> B CHR ''t''" "c \<noteq> B CHR ''b''"
        "c \<noteq> B CHR ''f''" "c \<noteq> 13" "c \<noteq> 10" "c \<noteq> B CHR ''(''" "c \<noteq> B CHR '')''" "c \<noteq> 92"
        "\<not> (c < B CHR ''0'' \<or> c > B CHR ''7'')"
      by (auto simp: isOctal_def B_def)
    from ev no oct
    have ev1: "e = [octalValue (c # takeWhile isOctal (take 2 cs'))]"
      "cs1 = drop (length (takeWhile isOctal (take 2 cs'))) cs'"
      by (simp_all add: Let_def)
    from ev1(2) n obtain c2 cs'' where c2: "cs' = c2 # cs''" by (cases cs') auto
    from d1 c2 have r2: "read d (Suc q) = (c2, True, Suc (Suc q))"
      and d2: "drop (Suc (Suc q)) d = cs''"
      using read_Cons [of "Suc q" d c2 cs''] drop_Cons_nth [of "Suc q" d c2 cs''] by auto
    show ?thesis
    proof (cases "isOctal c2")
      case False
      then have "c2 < B CHR ''0'' \<or> c2 > B CHR ''7''" by (auto simp: isOctal_def)
      with False ev1 c2 d1 no show ?thesis
        by (simp add: readEscape_def r1 r2 Let_def octalValue_simps)
    next
      case True
      then have o2: "\<not> (c2 < B CHR ''0'' \<or> c2 > B CHR ''7'')" by (auto simp: isOctal_def)
      from True ev1(2) c2 n obtain c3 cs3 where c3: "cs'' = c3 # cs3" by (cases cs'') auto
      from d2 c3 have r3: "read d (Suc (Suc q)) = (c3, True, Suc (Suc (Suc q)))"
        and d3: "drop (Suc (Suc (Suc q))) d = cs3"
        using read_Cons [of "Suc (Suc q)" d c3 cs3] drop_Cons_nth [of "Suc (Suc q)" d c3 cs3]
        by auto
      show ?thesis
      proof (cases "isOctal c3")
        case False
        then have "c3 < B CHR ''0'' \<or> c3 > B CHR ''7''" by (auto simp: isOctal_def)
        with False True ev1 c2 c3 d2 no o2 show ?thesis
          by (simp add: readEscape_def r1 r2 r3 Let_def octalValue_simps)
      next
        case o3: True
        then have "\<not> (c3 < B CHR ''0'' \<or> c3 > B CHR ''7'')" by (auto simp: isOctal_def)
        with o3 True ev1 c2 c3 d3 no o2 show ?thesis
          by (simp add: readEscape_def r1 r2 r3 Let_def octalValue_simps)
      qed
    qed
  qed
qed

lemma emit_Some:
  "emit e r = Some (v, rest) \<longleftrightarrow> (\<exists>v1. r = Some (v1, rest) \<and> v = e @ v1)"
  by (cases r) (auto simp: emit_def)

lemma specLiteralValue_Nil: "specLiteralValue depth [] = None"
  by (simp add: specLiteralValue.simps)

text \<open>
  The string loop does what \<open>specLiteralValue\<close> says: from the position \<open>p\<close> where the bytes
  \<open>cs\<close> start, with the buffer \<open>out\<close>, it returns the buffer followed by the value, and stops
  after the closing parenthesis.
\<close>

lemma readString_specLiteralValue:
  "specLiteralValue depth cs = Some (v, rest) \<Longrightarrow> drop p d = cs \<Longrightarrow>
     readString d p (int depth) out = (out @ v, True, length d - length rest)"
proof (induction depth cs arbitrary: p out v rule: specLiteralValue.induct)
  case (1 depth)
  then show ?case by (simp add: specLiteralValue.simps)
next
  case (2 depth c cs)
  from "2.prems"(2) have r: "read d p = (c, True, Suc p)" and dr: "drop (Suc p) d = cs"
    and pl: "p < length d"
    using read_Cons [of p d c cs] drop_Cons_nth [of p d c cs] by auto
  note lv = "2.prems"(1) [unfolded specLiteralValue.simps]
  have nn: "int depth + 1 \<noteq> - 1" "int depth \<noteq> - 1" by simp_all
  consider (opn) "c = B CHR ''(''"
    | (close0) "c \<noteq> B CHR ''(''" "c = B CHR '')''" "depth = 0"
    | (close) "c \<noteq> B CHR ''(''" "c = B CHR '')''" "depth \<noteq> 0"
    | (esc) "c \<noteq> B CHR ''(''" "c \<noteq> B CHR '')''" "c = 92"
    | (crlf) "c \<noteq> B CHR ''(''" "c \<noteq> B CHR '')''" "c \<noteq> 92" "c = 13" "cs \<noteq> [] \<and> hd cs = 10"
    | (cr) "c \<noteq> B CHR ''(''" "c \<noteq> B CHR '')''" "c \<noteq> 92" "c = 13" "\<not> (cs \<noteq> [] \<and> hd cs = 10)"
    | (other) "c \<noteq> B CHR ''(''" "c \<noteq> B CHR '')''" "c \<noteq> 92" "c \<noteq> 13"
    by blast
  then show ?case
  proof cases
    case opn
    with lv obtain v1 where l1: "specLiteralValue (depth + 1) cs = Some (v1, rest)"
      and v: "v = [c] @ v1"
      by (auto simp: emit_Some)
    have i: "int (depth + 1) = int depth + 1" by simp
    have "readString d p (int depth) out = readString d (Suc p) (int depth + 1) (out @ [c])"
      using opn r nn by (subst readString.simps) simp
    with "2.IH"(1) [OF opn l1 dr, of "out @ [c]", unfolded i] v show ?thesis by simp
  next
    case close0
    with lv have v: "v = []" "rest = cs" by simp_all
    have "readString d p (int depth) out = (out, True, Suc p)"
      using close0 r by (subst readString.simps) simp
    with v dr pl show ?thesis by auto
  next
    case close
    with lv obtain v1 where l1: "specLiteralValue (depth - 1) cs = Some (v1, rest)"
      and v: "v = [c] @ v1"
      by (auto simp: emit_Some)
    from close(3) have i: "int depth - 1 = int (depth - 1)" "int depth - 1 \<noteq> - 1" by auto
    have "readString d p (int depth) out = readString d (Suc p) (int (depth - 1)) (out @ [c])"
      using close r i by (subst readString.simps) simp
    with "2.IH"(2) [OF close l1 dr, of "out @ [c]"] v show ?thesis by simp
  next
    case esc
    with lv obtain e cs1 v1 where ev: "specEscapeValue cs = Some (e, cs1)"
      and l1: "specLiteralValue depth cs1 = Some (v1, rest)" and v: "v = e @ v1"
      by (auto simp: emit_Some split: option.splits)
    from l1 have ne: "cs1 \<noteq> []" by (auto simp: specLiteralValue_Nil)
    from readEscape_specEscapeValue [OF dr ev ne] obtain ch q1 where
      re: "readEscape d (Suc p) = (ch, True, q1, e = [])" and ech: "e \<noteq> [] \<longrightarrow> e = [ch]"
      and dq: "drop q1 d = cs1"
      by blast
    have "readString d p (int depth) out = readString d q1 (int depth) (out @ e)"
      using esc r re ech nn by (subst readString.simps) auto
    with "2.IH"(3) [OF esc ev refl l1 dq, of "out @ e"] v show ?thesis by simp
  next
    case crlf
    with lv obtain v1 where l1: "specLiteralValue depth (tl cs) = Some (v1, rest)"
      and v: "v = [10] @ v1"
      by (auto simp: emit_Some)
    from crlf(5) obtain cs2 where c2: "cs = 10 # cs2" by (cases cs) auto
    from dr c2 have r2: "read d (Suc p) = (10, True, Suc (Suc p))"
      and d2: "drop (Suc (Suc p)) d = tl cs"
      using read_Cons [of "Suc p" d 10 cs2] drop_Cons_nth [of "Suc p" d 10 cs2] by auto
    have "readString d p (int depth) out = readString d (Suc (Suc p)) (int depth) (out @ [10])"
      using crlf r r2 nn by (subst readString.simps) (simp add: B_def)
    with "2.IH"(4) [OF crlf l1 d2, of "out @ [10]"] v show ?thesis by simp
  next
    case cr
    with lv obtain v1 where l1: "specLiteralValue depth cs = Some (v1, rest)"
      and v: "v = [10] @ v1"
      by (auto simp: emit_Some)
    from l1 cr(5) obtain x cs2 where c2: "cs = x # cs2" and x: "x \<noteq> 10"
      by (cases cs) (auto simp: specLiteralValue_Nil)
    from dr c2 have r2: "read d (Suc p) = (x, True, Suc (Suc p))"
      using read_Cons [of "Suc p" d x cs2] by auto
    have "readString d p (int depth) out = readString d (Suc p) (int depth) (out @ [10])"
      using cr r r2 x nn by (subst readString.simps) (simp add: B_def)
    with "2.IH"(5) [OF cr l1 dr, of "out @ [10]"] v show ?thesis by simp
  next
    case other
    with lv obtain v1 where l1: "specLiteralValue depth cs = Some (v1, rest)"
      and v: "v = [c] @ v1"
      by (auto simp: emit_Some)
    have "readString d p (int depth) out = readString d (Suc p) (int depth) (out @ [c])"
      using other r nn by (subst readString.simps) simp
    with "2.IH"(6) [OF other l1 dr, of "out @ [c]"] v show ?thesis by simp
  qed
qed

lemma skipWhitespace_stop:
  "\<not> IsAsciiWhitespace ch \<Longrightarrow> skipWhitespace d ch ok p = (ch, ok, p)"
  by (subst skipWhitespace.simps) simp

text \<open>
  Claim C8. For every literal string that is closed (\<open>specLiteralValue\<close> returns its value
  \<open>v\<close> and the bytes \<open>rest\<close> after it), wherever it stands in the data and whatever the
  previous token is, \<open>nextToken\<close> at its opening parenthesis returns without error the
  String token whose \<open>Value\<close> is \<open>v\<close>, and stops after the closing parenthesis. In that
  value each unescaped carriage return gives exactly one line feed: where the decoding
  stands at a carriage return followed by a line feed, the value goes on with one line
  feed and then with what follows the pair; where it stands at a carriage return followed
  by another byte, the value goes on with one line feed and then with what follows the
  carriage return.
\<close>

theorem literal_string_value:
  "(specLiteralValue 0 body = Some (v, rest) \<longrightarrow>
      nextToken prev (pre @ B CHR ''('' # body) (length pre)
        = Some (\<lparr>Value = v, Kind = String\<rparr>, None,
                length pre + 1 + length body - length rest))
   \<and> specLiteralValue depth (13 # 10 # cs) = emit [10] (specLiteralValue depth cs)
   \<and> (c \<noteq> 10 \<longrightarrow> specLiteralValue depth (13 # c # cs) = emit [10] (specLiteralValue depth (c # cs)))"
proof (intro conjI impI)
  assume lv: "specLiteralValue 0 body = Some (v, rest)"
  define d where "d = pre @ B CHR ''('' # body"
  have dr: "drop (length pre) d = B CHR ''('' # body" by (simp add: d_def)
  have r: "read d (length pre) = (B CHR ''('', True, Suc (length pre))"
    by (rule read_Cons [OF dr])
  have s: "skipWhitespace d (B CHR ''('') True (Suc (length pre))
             = (B CHR ''('', True, Suc (length pre))"
    by (rule skipWhitespace_stop) (simp add: IsAsciiWhitespace_def B_def)
  have d1: "drop (Suc (length pre)) d = body" by (simp add: d_def)
  from readString_specLiteralValue [OF lv d1, of "[]"]
  have rs: "readString d (Suc (length pre)) 0 [] = (v, True, length d - length rest)" by simp
  have ne: "B CHR ''('' \<noteq> B CHR ''[''" "B CHR ''('' \<noteq> B CHR '']''"
    "B CHR ''('' \<noteq> B CHR ''{''" "B CHR ''('' \<noteq> B CHR ''}''" "B CHR ''('' \<noteq> B CHR ''/''"
    "B CHR ''('' \<noteq> B CHR ''>''" "B CHR ''('' \<noteq> B CHR ''<''" "B CHR ''('' \<noteq> B CHR ''%''"
    by (simp_all add: B_def)
  have "nextToken prev d (length pre)
          = Some (\<lparr>Value = v, Kind = String\<rparr>, None, length d - length rest)"
    by (subst nextToken.simps) (simp add: r s rs ne)
  then show "nextToken prev (pre @ B CHR ''('' # body) (length pre)
          = Some (\<lparr>Value = v, Kind = String\<rparr>, None,
                  length pre + 1 + length body - length rest)"
    by (simp add: d_def)
next
  show "specLiteralValue depth (13 # 10 # cs) = emit [10] (specLiteralValue depth cs)"
    by (subst specLiteralValue.simps) (simp add: B_def)
next
  assume "c \<noteq> 10"
  then show "specLiteralValue depth (13 # c # cs) = emit [10] (specLiteralValue depth (c # cs))"
    by (subst specLiteralValue.simps) (simp add: B_def)
qed

text \<open>
  A string with a bare carriage return and a carriage return with its line feed, after
  two other bytes.
\<close>

theorem literal_string_value_witness:
  "nextToken zeroToken
     (bytes ''x '' @ B CHR ''('' # (bytes ''a'' @ [13] @ bytes ''b'' @ [13, 10] @ bytes ''c) y''))
     2
   = Some (\<lparr>Value = bytes ''a'' @ [10] @ bytes ''b'' @ [10] @ bytes ''c'', Kind = String\<rparr>,
           None, 10)
   \<and> specLiteralValue 0 (13 # 10 # bytes ''c) y'') = Some (10 # bytes ''c'', bytes '' y'')
   \<and> specLiteralValue 0 (13 # B CHR ''b'' # bytes ''c) y'') = Some (10 # bytes ''bc'', bytes '' y'')"
proof -
  have lv: "specLiteralValue 0 (bytes ''a'' @ [13] @ bytes ''b'' @ [13, 10] @ bytes ''c) y'')
            = Some (bytes ''a'' @ [10] @ bytes ''b'' @ [10] @ bytes ''c'', bytes '' y'')"
    by code_simp
  have l1: "specLiteralValue 0 (bytes ''c) y'') = Some (bytes ''c'', bytes '' y'')" by code_simp
  have l2: "specLiteralValue 0 (B CHR ''b'' # bytes ''c) y'') = Some (bytes ''bc'', bytes '' y'')"
    by code_simp
  have ne: "B CHR ''b'' \<noteq> 10" by (simp add: B_def)
  from literal_string_value
    [of "bytes ''a'' @ [13] @ bytes ''b'' @ [13, 10] @ bytes ''c) y''"
        "bytes ''a'' @ [10] @ bytes ''b'' @ [10] @ bytes ''c''" "bytes '' y''" zeroToken
        "bytes ''x ''" 0 "bytes ''c) y''" "B CHR ''b''"]
    lv l1 l2 ne
  show ?thesis by (simp add: bytes_def emit_def eval_nat_numeral)
qed

text \<open>
  The literals that \<open>specLiteralValue\<close> accepts are the ones that \<open>nextToken\<close> accepts:
  where the decoder finds the end of the input within the string, so does the string
  loop, and \<open>nextToken\<close> returns the error of an unexpected EOF with the zero token.
\<close>

lemma read_Nil: "drop p d = [] \<Longrightarrow> read d p = (0, False, p)"
  by (simp add: read_def)

lemma readEscape_Nil:
  assumes "drop q d = []"
  shows "\<exists>ch q1. readEscape d q = (ch, False, q1, False)"
  using read_Nil [OF assms] by (simp add: readEscape_def B_def)

lemma readEscape_at_end:
  assumes d: "drop q d = cs" and e: "specEscapeValue cs = Some (e, [])"
  shows "(\<exists>ch q1. readEscape d q = (ch, True, q1, e = []) \<and> (e \<noteq> [] \<longrightarrow> e = [ch])
            \<and> drop q1 d = [])
         \<or> (\<exists>ch q1. readEscape d q = (ch, False, q1, False))
         \<or> (readEscape d q = (0, False, q, True) \<and> cs = [13])"
proof -
  from e obtain c cs' where cs: "cs = c # cs'" by (cases cs) (auto simp: specEscapeValue.simps)
  from d cs have r1: "read d q = (c, True, Suc q)" and d1: "drop (Suc q) d = cs'"
    using read_Cons [of q d c cs'] drop_Cons_nth [of q d c cs'] by auto
  note ev = e [unfolded cs specEscapeValue.simps]
  consider (plain) "c \<noteq> 13" "\<not> isOctal c" | (cr) "c = 13" | (oct) "isOctal c"
    by blast
  then show ?thesis
  proof cases
    case plain
    with ev d1 have "\<exists>ch q1. readEscape d q = (ch, True, q1, e = []) \<and> (e \<noteq> [] \<longrightarrow> e = [ch])
            \<and> drop q1 d = []"
      by (auto simp: readEscape_def r1 B_def isOctal_def split: if_splits)
    then show ?thesis by blast
  next
    case cr
    show ?thesis
    proof (cases cs')
      case Nil
      with d1 have "read d (Suc q) = (0, False, Suc q)" by (simp add: read_Nil)
      with cr Nil cs show ?thesis by (simp add: readEscape_def r1 B_def)
    next
      case (Cons x cs'')
      from d1 Cons have r2: "read d (Suc q) = (x, True, Suc (Suc q))"
        and d2: "drop (Suc (Suc q)) d = cs''"
        using read_Cons [of "Suc q" d x cs''] drop_Cons_nth [of "Suc q" d x cs''] by auto
      from cr ev Cons d1 d2
      have "\<exists>ch q1. readEscape d q = (ch, True, q1, e = []) \<and> (e \<noteq> [] \<longrightarrow> e = [ch])
            \<and> drop q1 d = []"
        by (auto simp: readEscape_def r1 r2 B_def split: if_splits)
      then show ?thesis by blast
    qed
  next
    case oct
    then have no: "c \<noteq> B CHR ''n''" "c \<noteq> B CHR ''r''" "c \<noteq> B CHR ''t''" "c \<noteq> B CHR ''b''"
        "c \<noteq> B CHR ''f''" "c \<noteq> 13" "c \<noteq> 10" "c \<noteq> B CHR ''(''" "c \<noteq> B CHR '')''" "c \<noteq> 92"
        "\<not> (c < B CHR ''0'' \<or> c > B CHR ''7'')"
      by (auto simp: isOctal_def B_def)
    have z: "(0 :: byte) < B CHR ''0''" by (simp add: B_def)
    from ev no oct
    have ev1: "e = [octalValue (c # takeWhile isOctal (take 2 cs'))]"
      "drop (length (takeWhile isOctal (take 2 cs'))) cs' = []"
      by (simp_all add: Let_def)
    show ?thesis
    proof (cases cs')
      case Nil
      with d1 have "read d (Suc q) = (0, False, Suc q)" by (simp add: read_Nil)
      with no z show ?thesis by (simp add: readEscape_def r1 Let_def)
    next
      case c2: (Cons c2 cs'')
      from d1 c2 have r2: "read d (Suc q) = (c2, True, Suc (Suc q))"
        and d2: "drop (Suc (Suc q)) d = cs''"
        using read_Cons [of "Suc q" d c2 cs''] drop_Cons_nth [of "Suc q" d c2 cs''] by auto
      from ev1(2) c2 have o2: "isOctal c2" by (cases "isOctal c2") auto
      then have n2: "\<not> (c2 < B CHR ''0'' \<or> c2 > B CHR ''7'')" by (auto simp: isOctal_def)
      show ?thesis
      proof (cases cs'')
        case Nil
        with d2 have "read d (Suc (Suc q)) = (0, False, Suc (Suc q))" by (simp add: read_Nil)
        with no n2 z show ?thesis by (simp add: readEscape_def r1 r2 Let_def)
      next
        case c3: (Cons c3 cs3)
        from d2 c3 have r3: "read d (Suc (Suc q)) = (c3, True, Suc (Suc (Suc q)))"
          and d3: "drop (Suc (Suc (Suc q))) d = cs3"
          using read_Cons [of "Suc (Suc q)" d c3 cs3] drop_Cons_nth [of "Suc (Suc q)" d c3 cs3]
          by auto
        from ev1(2) c2 c3 o2 have o3: "isOctal c3" and e3: "cs3 = []"
          by (cases "isOctal c3"; simp)+
        from o3 have "\<not> (c3 < B CHR ''0'' \<or> c3 > B CHR ''7'')" by (auto simp: isOctal_def)
        with o2 o3 ev1 c2 c3 d3 e3 no n2
        have "\<exists>ch q1. readEscape d q = (ch, True, q1, e = []) \<and> (e \<noteq> [] \<longrightarrow> e = [ch])
            \<and> drop q1 d = []"
          by (simp add: readEscape_def r1 r2 r3 Let_def octalValue_simps)
        then show ?thesis by blast
      qed
    qed
  qed
qed

lemma emit_None: "emit e r = None \<longleftrightarrow> r = None"
  by (simp add: emit_def)

lemma readString_rejects:
  "specLiteralValue depth cs = None \<Longrightarrow> drop p d = cs \<Longrightarrow>
     \<exists>r q. readString d p (int depth) out = (r, False, q)"
proof (induction depth cs arbitrary: p out rule: specLiteralValue.induct)
  case (1 depth)
  from read_Nil [OF "1.prems"(2)] show ?case by (subst readString.simps) simp
next
  case (2 depth c cs)
  from "2.prems"(2) have r: "read d p = (c, True, Suc p)" and dr: "drop (Suc p) d = cs"
    using read_Cons [of p d c cs] drop_Cons_nth [of p d c cs] by auto
  note lv = "2.prems"(1) [unfolded specLiteralValue.simps]
  have nn: "int depth + 1 \<noteq> - 1" "int depth \<noteq> - 1" by simp_all
  consider (opn) "c = B CHR ''(''"
    | (close0) "c \<noteq> B CHR ''(''" "c = B CHR '')''" "depth = 0"
    | (close) "c \<noteq> B CHR ''(''" "c = B CHR '')''" "depth \<noteq> 0"
    | (esc) "c \<noteq> B CHR ''(''" "c \<noteq> B CHR '')''" "c = 92"
    | (crlf) "c \<noteq> B CHR ''(''" "c \<noteq> B CHR '')''" "c \<noteq> 92" "c = 13" "cs \<noteq> [] \<and> hd cs = 10"
    | (cr) "c \<noteq> B CHR ''(''" "c \<noteq> B CHR '')''" "c \<noteq> 92" "c = 13" "\<not> (cs \<noteq> [] \<and> hd cs = 10)"
    | (other) "c \<noteq> B CHR ''(''" "c \<noteq> B CHR '')''" "c \<noteq> 92" "c \<noteq> 13"
    by blast
  then show ?case
  proof cases
    case opn
    with lv have l1: "specLiteralValue (depth + 1) cs = None" by (simp add: emit_None)
    have i: "int (depth + 1) = int depth + 1" by simp
    have "readString d p (int depth) out = readString d (Suc p) (int depth + 1) (out @ [c])"
      using opn r nn by (subst readString.simps) simp
    with "2.IH"(1) [OF opn l1 dr, of "out @ [c]", unfolded i] show ?thesis by simp
  next
    case close0
    with lv show ?thesis by simp
  next
    case close
    with lv have l1: "specLiteralValue (depth - 1) cs = None" by (simp add: emit_None)
    from close(3) have i: "int depth - 1 = int (depth - 1)" "int depth - 1 \<noteq> - 1" by auto
    have "readString d p (int depth) out = readString d (Suc p) (int (depth - 1)) (out @ [c])"
      using close r i by (subst readString.simps) simp
    with "2.IH"(2) [OF close l1 dr, of "out @ [c]"] show ?thesis by simp
  next
    case esc
    show ?thesis
    proof (cases "specEscapeValue cs")
      case None
      then have "cs = []"
        by (cases cs) (auto simp: specEscapeValue.simps Let_def split: if_splits)
      with dr readEscape_Nil [of "Suc p" d] obtain ch q1 where
        "readEscape d (Suc p) = (ch, False, q1, False)" by auto
      then have "readString d p (int depth) out = (out, False, q1)"
        using esc r by (subst readString.simps) simp
      then show ?thesis by simp
    next
      case (Some x)
      then obtain e cs1 where ev: "specEscapeValue cs = Some (e, cs1)" by (cases x) auto
      with lv esc have l1: "specLiteralValue depth cs1 = None" by (simp add: emit_None)
      have "(\<exists>ch q1. readEscape d (Suc p) = (ch, True, q1, e = []) \<and> (e \<noteq> [] \<longrightarrow> e = [ch])
                \<and> drop q1 d = cs1)
            \<or> (\<exists>ch q1. readEscape d (Suc p) = (ch, False, q1, False))
            \<or> (readEscape d (Suc p) = (0, False, Suc p, True) \<and> cs = [13])"
      proof (cases "cs1 = []")
        case True
        with readEscape_at_end [OF dr] ev show ?thesis by simp
      next
        case False
        from readEscape_specEscapeValue [OF dr ev False] show ?thesis by blast
      qed
      then consider (std) ch q1 where "readEscape d (Suc p) = (ch, True, q1, e = [])"
          "e \<noteq> [] \<longrightarrow> e = [ch]" "drop q1 d = cs1"
        | (eof) ch q1 where "readEscape d (Suc p) = (ch, False, q1, False)"
        | (again) "readEscape d (Suc p) = (0, False, Suc p, True)" "cs = [13]"
        by blast
      then show ?thesis
      proof cases
        case std
        have "readString d p (int depth) out = readString d q1 (int depth) (out @ e)"
          using esc r std(1,2) nn by (subst readString.simps) auto
        with "2.IH"(3) [OF esc ev refl l1 std(3), of "out @ e"] show ?thesis by simp
      next
        case eof
        then have "readString d p (int depth) out = (out, False, q1)"
          using esc r by (subst readString.simps) simp
        then show ?thesis by simp
      next
        case again
        from dr again(2) have r1: "read d (Suc p) = (13, True, Suc (Suc p))"
          and "drop (Suc (Suc p)) d = []"
          using read_Cons [of "Suc p" d 13 "[]"] drop_Cons_nth [of "Suc p" d 13 "[]"] by auto
        then have r2: "read d (Suc (Suc p)) = (0, False, Suc (Suc p))" by (simp add: read_Nil)
        have "readString d p (int depth) out = readString d (Suc p) (int depth) out"
          using esc r again(1) by (subst readString.simps) simp
        also have "\<dots> = (out, False, Suc (Suc p))"
          using r1 r2 by (subst readString.simps) (simp add: B_def)
        finally show ?thesis by simp
      qed
    qed
  next
    case crlf
    with lv have l1: "specLiteralValue depth (tl cs) = None"
      by (auto simp: emit_None split: if_splits)
    from crlf(5) obtain cs2 where c2: "cs = 10 # cs2" by (cases cs) auto
    from dr c2 have r2: "read d (Suc p) = (10, True, Suc (Suc p))"
      and d2: "drop (Suc (Suc p)) d = tl cs"
      using read_Cons [of "Suc p" d 10 cs2] drop_Cons_nth [of "Suc p" d 10 cs2] by auto
    have "readString d p (int depth) out = readString d (Suc (Suc p)) (int depth) (out @ [10])"
      using crlf r r2 nn by (subst readString.simps) (simp add: B_def)
    with "2.IH"(4) [OF crlf l1 d2, of "out @ [10]"] show ?thesis by simp
  next
    case cr
    with lv have l1: "specLiteralValue depth cs = None"
      by (auto simp: emit_None split: if_splits)
    show ?thesis
    proof (cases cs)
      case Nil
      with dr have r2: "read d (Suc p) = (0, False, Suc p)" by (simp add: read_Nil)
      have "readString d p (int depth) out = (out, False, Suc p)"
        using cr r r2 by (subst readString.simps) (simp add: B_def)
      then show ?thesis by simp
    next
      case (Cons x cs2)
      with cr(5) have x: "x \<noteq> 10" by simp
      from dr Cons have r2: "read d (Suc p) = (x, True, Suc (Suc p))"
        using read_Cons [of "Suc p" d x cs2] by auto
      have "readString d p (int depth) out = readString d (Suc p) (int depth) (out @ [10])"
        using cr r r2 x nn by (subst readString.simps) (simp add: B_def)
      with "2.IH"(5) [OF cr l1 dr, of "out @ [10]"] show ?thesis by simp
    qed
  next
    case other
    with lv have l1: "specLiteralValue depth cs = None" by (simp add: emit_None)
    have "readString d p (int depth) out = readString d (Suc p) (int depth) (out @ [c])"
      using other r nn by (subst readString.simps) simp
    with "2.IH"(6) [OF other l1 dr, of "out @ [c]"] show ?thesis by simp
  qed
qed

lemma unclosed_string_rejected:
  assumes "specLiteralValue 0 body = None"
  shows "\<exists>q. nextToken prev (pre @ B CHR ''('' # body) (length pre)
               = Some (zeroToken, Some StringEOF, q)"
proof -
  define d where "d = pre @ B CHR ''('' # body"
  have dr: "drop (length pre) d = B CHR ''('' # body" by (simp add: d_def)
  have r: "read d (length pre) = (B CHR ''('', True, Suc (length pre))"
    by (rule read_Cons [OF dr])
  have s: "skipWhitespace d (B CHR ''('') True (Suc (length pre))
             = (B CHR ''('', True, Suc (length pre))"
    by (rule skipWhitespace_stop) (simp add: IsAsciiWhitespace_def B_def)
  have d1: "drop (Suc (length pre)) d = body" by (simp add: d_def)
  from readString_rejects [OF assms d1, of "[]"] obtain ob q where
    rs: "readString d (Suc (length pre)) 0 [] = (ob, False, q)" by auto
  have ne: "B CHR ''('' \<noteq> B CHR ''[''" "B CHR ''('' \<noteq> B CHR '']''"
    "B CHR ''('' \<noteq> B CHR ''{''" "B CHR ''('' \<noteq> B CHR ''}''" "B CHR ''('' \<noteq> B CHR ''/''"
    "B CHR ''('' \<noteq> B CHR ''>''" "B CHR ''('' \<noteq> B CHR ''<''" "B CHR ''('' \<noteq> B CHR ''%''"
    by (simp_all add: B_def)
  have "nextToken prev d (length pre) = Some (zeroToken, Some StringEOF, q)"
    by (subst nextToken.simps) (simp add: r s rs ne)
  then show ?thesis by (auto simp: d_def)
qed

section \<open>Where the scanners leave the position\<close>

text \<open>
  Each scanner leaves the position at or after the one it started from, and within the
  data when it started there. Only \<open>readCharString\<close> makes a CharString.
\<close>

lemma read_pos:
  "read d p = (c, ok, p1) \<Longrightarrow>
     p \<le> p1 \<and> p1 \<le> p + 1 \<and> (p \<le> length d \<longrightarrow> p1 \<le> length d) \<and> (ok \<longrightarrow> p1 = p + 1)
     \<and> (c \<noteq> 0 \<longrightarrow> ok)"
  by (auto simp: read_def split: if_splits)

lemma skipWhitespace_bound:
  "skipWhitespace d ch ok p = (ch', ok', p') \<Longrightarrow> p \<le> length d \<Longrightarrow> p' \<le> length d"
proof (induction d ch ok p rule: skipWhitespace.induct)
  case (1 d ch ok p)
  show ?case
  proof (cases "ok \<and> IsAsciiWhitespace ch")
    case True
    obtain c1 o1 p1 where r: "read d p = (c1, o1, p1)" by (cases "read d p") auto
    from read_pos [OF r] "1.prems"(2) have "p1 \<le> length d" by simp
    moreover have "skipWhitespace d ch ok p = skipWhitespace d c1 o1 p1"
      using True r by (subst skipWhitespace.simps) simp
    with "1.prems"(1) have "skipWhitespace d c1 o1 p1 = (ch', ok', p')" by simp
    ultimately show ?thesis using "1.IH" [OF True r [symmetric] refl] by blast
  next
    case False
    then have "skipWhitespace d ch ok p = (ch, ok, p)" by (subst skipWhitespace.simps) auto
    with "1.prems" show ?thesis by simp
  qed
qed

lemma skipComment_bound:
  "skipComment d ch ok p = (ch', ok', p') \<Longrightarrow> p \<le> length d \<Longrightarrow> p' \<le> length d"
proof (induction d ch ok p rule: skipComment.induct)
  case (1 d ch ok p)
  show ?case
  proof (cases "ok \<and> ch \<noteq> 13 \<and> ch \<noteq> 10")
    case True
    obtain c1 o1 p1 where r: "read d p = (c1, o1, p1)" by (cases "read d p") auto
    from read_pos [OF r] "1.prems"(2) have "p1 \<le> length d" by simp
    moreover have "skipComment d ch ok p = skipComment d c1 o1 p1"
      using True r by (subst skipComment.simps) simp
    with "1.prems"(1) have "skipComment d c1 o1 p1 = (ch', ok', p')" by simp
    ultimately show ?thesis using "1.IH" [OF True r [symmetric] refl] by blast
  next
    case False
    then have "skipComment d ch ok p = (ch, ok, p)" by (subst skipComment.simps) auto
    with "1.prems" show ?thesis by simp
  qed
qed

lemma readName_pos:
  "readName d p out = (t, e, p') \<Longrightarrow> p \<le> p' \<and> (p \<le> length d \<longrightarrow> p' \<le> length d)"
proof (induction d p out rule: readName.induct)
  case (1 d p outBuf)
  obtain ch ok p1 where r: "read d p = (ch, ok, p1)" by (cases "read d p") auto
  obtain h1 o1 p2 where r1: "read d p1 = (h1, o1, p2)" by (cases "read d p1") auto
  obtain h2 o2 p3 where r2: "read d p2 = (h2, o2, p3)" by (cases "read d p2") auto
  note b = read_pos [OF r] read_pos [OF r1] read_pos [OF r2]
  show ?case
  proof (cases "\<not> ok \<or> isDelimiter ch")
    case True
    with "1.prems" r b show ?thesis
      by (auto simp: readName.simps [of d p outBuf])
  next
    case False
    show ?thesis
    proof (cases "ch = B CHR ''#''")
      case True
      show ?thesis
      proof (cases "hexPairOK h1 h2")
        case ok: True
        from "1.prems" False True ok r r1 r2
        have "readName d p3 (outBuf @ [ch] @ [h1, h2]) = (t, e, p')"
          by (simp add: readName.simps [of d p outBuf])
        from "1.IH"(1) [OF r [symmetric] refl False True r1 [symmetric] refl r2 [symmetric] refl _ this] ok
        have "p3 \<le> p' \<and> (p3 \<le> length d \<longrightarrow> p' \<le> length d)" by simp
        with b show ?thesis by auto
      next
        case bad: False
        with "1.prems" False True r r1 r2 b show ?thesis
          by (auto simp: readName.simps [of d p outBuf])
      qed
    next
      case nohash: False
      from "1.prems" False nohash r
      have "readName d p1 (outBuf @ [ch]) = (t, e, p')"
        by (simp add: readName.simps [of d p outBuf])
      from "1.IH"(2) [OF r [symmetric] refl False nohash this]
      have "p1 \<le> p' \<and> (p1 \<le> length d \<longrightarrow> p' \<le> length d)" .
      with b show ?thesis by auto
    qed
  qed
qed

lemma readHex_pos:
  "readHex d v ok p out = (t, e, p') \<Longrightarrow> p \<le> p' \<and> (p \<le> length d \<longrightarrow> p' \<le> length d)"
proof (induction d v ok p out rule: readHex.induct)
  case (1 d v1 ok1 p outBuf)
  obtain v1a ok1a p1 where s1: "skipWhitespace d v1 ok1 p = (v1a, ok1a, p1)"
    by (cases "skipWhitespace d v1 ok1 p") auto
  obtain h1 okh1 where x1: "IsHexChar v1a = (h1, okh1)" by (cases "IsHexChar v1a") auto
  obtain v2 ok2 p2 where r2: "read d p1 = (v2, ok2, p2)" by (cases "read d p1") auto
  obtain v2a ok2a p3 where s2: "skipWhitespace d v2 ok2 p2 = (v2a, ok2a, p3)"
    by (cases "skipWhitespace d v2 ok2 p2") auto
  obtain h2 okh2 where x2: "IsHexChar v2a = (h2, okh2)" by (cases "IsHexChar v2a") auto
  obtain v1b ok1b p4 where r4: "read d p3 = (v1b, ok1b, p4)" by (cases "read d p3") auto
  have b: "p \<le> p1" "p1 \<le> p2" "p2 \<le> p3" "p3 \<le> p4"
    "p \<le> length d \<longrightarrow> p1 \<le> length d" "p1 \<le> length d \<longrightarrow> p2 \<le> length d"
    "p2 \<le> length d \<longrightarrow> p3 \<le> length d" "p3 \<le> length d \<longrightarrow> p4 \<le> length d"
    using skipWhitespace_pos [OF s1] skipWhitespace_pos [OF s2] read_pos [OF r2] read_pos [OF r4]
      skipWhitespace_bound [OF s1] skipWhitespace_bound [OF s2]
    by auto
  show ?case
  proof (cases "v1a \<noteq> B CHR ''>'' \<and> okh1 \<and> v2a \<noteq> B CHR ''>'' \<and> okh2")
    case True
    with "1.prems" s1 x1 r2 s2 x2 r4
    have "readHex d v1b ok1b p4 (outBuf @ [push_bit 4 h1 + h2]) = (t, e, p')"
      by (simp add: readHex.simps [of d v1 ok1 p outBuf])
    from "1.IH" [OF s1 [symmetric] refl _ x1 [symmetric] _ r2 [symmetric] refl s2 [symmetric] refl
        _ x2 [symmetric] _ r4 [symmetric] refl this] True
    have "p4 \<le> p' \<and> (p4 \<le> length d \<longrightarrow> p' \<le> length d)" by simp
    with b show ?thesis by auto
  next
    case False
    with "1.prems" s1 x1 r2 s2 x2 r4 b show ?thesis
      by (auto simp: readHex.simps [of d v1 ok1 p outBuf] split: if_splits)
  qed
qed

lemma readEscape_bound:
  "readEscape d p = (ch, ok, p', lb) \<Longrightarrow> p \<le> length d \<Longrightarrow> p' \<le> length d"
  by (auto simp: readEscape_def read_def Let_def split: if_splits)

lemma readString_pos:
  "readString d p nesting out = (r, ok, p') \<Longrightarrow>
     p \<le> p' \<and> (p \<le> length d \<longrightarrow> p' \<le> length d)"
proof (induction d p nesting out rule: readString.induct)
  case (1 d p nesting outBuf)
  obtain ch ok0 p1 where r: "read d p = (ch, ok0, p1)" by (cases "read d p") auto
  obtain c2 ok2 p2 lb where e: "readEscape d p1 = (c2, ok2, p2, lb)"
    by (cases "readEscape d p1") auto
  obtain c3 ok3 p3 where r2: "read d p1 = (c3, ok3, p3)" by (cases "read d p1") auto
  note unfold = readString.simps [of d p nesting outBuf]
  note ih = "1.IH" [OF r [symmetric] refl]
  have b: "p \<le> p1" "p \<le> length d \<longrightarrow> p1 \<le> length d" "ok0 \<longrightarrow> p1 = p + 1"
    "p1 \<le> p2" "p1 \<le> length d \<longrightarrow> p2 \<le> length d"
    "p1 \<le> p3" "p1 \<le> length d \<longrightarrow> p3 \<le> length d" "ok3 \<longrightarrow> p3 = p1 + 1"
    using read_pos [OF r] read_pos [OF r2] readEscape_pos [OF e] readEscape_bound [OF e] by auto
  show ?case
  proof (cases ok0)
    case False
    with "1.prems" r b show ?thesis by (auto simp: unfold)
  next
    case True
    consider (lp) "ch = B CHR ''(''"
      | (rp) "ch \<noteq> B CHR ''(''" "ch = B CHR '')''"
      | (esc) "ch \<noteq> B CHR ''(''" "ch \<noteq> B CHR '')''" "ch = 92"
      | (cr) "ch \<noteq> B CHR ''(''" "ch \<noteq> B CHR '')''" "ch \<noteq> 92" "ch = 13"
      | (other) "ch \<noteq> B CHR ''(''" "ch \<noteq> B CHR '')''" "ch \<noteq> 92" "ch \<noteq> 13"
      by blast
    then show ?thesis
    proof cases
      case lp
      with True ih(1) "1.prems" r b show ?thesis by (auto simp: unfold split: if_splits)
    next
      case rp
      with True ih(2) "1.prems" r b show ?thesis by (auto simp: unfold split: if_splits)
    next
      case esc
      note a3 = ih(3) [OF _ esc e [symmetric] refl refl]
      note a4 = ih(4) [OF _ esc e [symmetric] refl refl]
      from True esc a3 a4 "1.prems" r e b show ?thesis
        by (auto simp: unfold split: if_splits)
    next
      case cr
      note a5 = ih(5) [OF _ cr r2 [symmetric] refl]
      note a6 = ih(6) [OF _ cr r2 [symmetric] refl]
      from True cr a5 a6 "1.prems" r r2 b show ?thesis
        by (auto simp: unfold split: if_splits)
    next
      case other
      with True ih(7) "1.prems" r b show ?thesis by (auto simp: unfold split: if_splits)
    qed
  qed
qed

lemma readDigits_pos:
  "readDigits d sb c ok q = (sb', c', ok', q') \<Longrightarrow>
     q \<le> q' \<and> (q \<le> length d \<longrightarrow> q' \<le> length d) \<and> (ok' \<longrightarrow> (ok \<and> q' = q) \<or> q < q')"
proof (induction d sb c ok q rule: readDigits.induct)
  case (1 d sb c ok q)
  show ?case
  proof (cases "isDigit c")
    case True
    obtain c1 o1 q1 where r: "read d q = (c1, o1, q1)" by (cases "read d q") auto
    have "readDigits d sb c ok q = readDigits d (sb @ [c]) c1 o1 q1"
      using True r by (subst readDigits.simps) simp
    with "1.prems" have "readDigits d (sb @ [c]) c1 o1 q1 = (sb', c', ok', q')" by simp
    from "1.IH" [OF True r [symmetric] refl this] read_pos [OF r] show ?thesis by auto
  next
    case False
    then have "readDigits d sb c ok q = (sb, c, ok, q)" by (subst readDigits.simps) simp
    with "1.prems" show ?thesis by simp
  qed
qed

lemma readNumberTail_pos:
  assumes "readNumberTail d m radix sb nr c ok q = (t, okr, q')"
    and "m \<le> q" and "ok \<longrightarrow> m < q"
  shows "m \<le> q' \<and> (m \<le> length d \<and> q \<le> length d \<longrightarrow> q' \<le> length d)
         \<and> Kind t \<noteq> CharString"
proof (cases "nr \<and> \<not> isDigit c")
  case True
  with assms show ?thesis by (auto simp: readNumberTail_def zeroToken_def)
next
  case False
  obtain sb1 c1 ok1 q1 where r: "readDigits d sb c ok q = (sb1, c1, ok1, q1)"
    by (cases "readDigits d sb c ok q") auto
  from assms(1) False r have "q' = (if ok1 then q1 - 1 else q1)" "Kind t \<noteq> CharString"
    by (auto simp: readNumberTail_def Let_def split: if_splits)
  with readDigits_pos [OF r] assms(2,3) show ?thesis by auto
qed

lemma readNumber_rest_pos:
  assumes rd: "readDigits d sb0 c1 ok0 p1 = (sb, c, ok, p2)"
    and b1: "p \<le> p1" "ok0 \<longrightarrow> p < p1"
    and res: "(if c = B CHR ''.'' then
                (case read d p2 of (c', ok', p') \<Rightarrow>
                   readNumberTail d p [] (sb @ [c]) False c' ok' p')
              else if c = B CHR ''#'' then
                (case read d p2 of (c', ok', p') \<Rightarrow>
                   readNumberTail d p sb [] True c' ok' p')
              else if length sb = 0 \<or> \<not> hasDigit then (zeroToken, False, p)
              else if c = B CHR ''E'' \<or> c = B CHR ''e'' then
                (case read d p2 of (c', ok', p') \<Rightarrow>
                   if c' = B CHR ''-''
                   then (case read d p' of (c'', ok'', p'') \<Rightarrow>
                           readNumberTail d p [] (sb @ [c] @ [c']) True c'' ok'' p'')
                   else readNumberTail d p [] (sb @ [c]) True c' ok' p')
              else (\<lparr>Value = sb, Kind = Integer\<rparr>, True, if ok then p2 - 1 else p2))
             = (t, okr, q)"
  shows "p \<le> q \<and> (p1 \<le> length d \<longrightarrow> q \<le> length d) \<and> Kind t \<noteq> CharString"
proof -
  obtain c3 ok3 p3 where r3: "read d p2 = (c3, ok3, p3)" by (cases "read d p2") auto
  obtain c4 ok4 p4 where r4: "read d p3 = (c4, ok4, p4)" by (cases "read d p3") auto
  have b2: "p \<le> p2" "p1 \<le> length d \<longrightarrow> p2 \<le> length d" "ok \<longrightarrow> p < p2"
    using readDigits_pos [OF rd] b1 by auto
  have b3: "p \<le> p3" "p1 \<le> length d \<longrightarrow> p3 \<le> length d" "ok3 \<longrightarrow> p < p3"
    using read_pos [OF r3] b2 by auto
  have b4: "p \<le> p4" "p1 \<le> length d \<longrightarrow> p4 \<le> length d" "ok4 \<longrightarrow> p < p4"
    using read_pos [OF r4] b3 by auto
  have pl: "p1 \<le> length d \<longrightarrow> p \<le> length d" using b1 by simp
  consider (dot) "c = B CHR ''.''"
    | (radix) "c \<noteq> B CHR ''.''" "c = B CHR ''#''"
    | (fail) "c \<noteq> B CHR ''.''" "c \<noteq> B CHR ''#''" "length sb = 0 \<or> \<not> hasDigit"
    | (exp1) "c \<noteq> B CHR ''.''" "c \<noteq> B CHR ''#''" "\<not> (length sb = 0 \<or> \<not> hasDigit)"
        "c = B CHR ''E'' \<or> c = B CHR ''e''" "c3 = B CHR ''-''"
    | (exp2) "c \<noteq> B CHR ''.''" "c \<noteq> B CHR ''#''" "\<not> (length sb = 0 \<or> \<not> hasDigit)"
        "c = B CHR ''E'' \<or> c = B CHR ''e''" "c3 \<noteq> B CHR ''-''"
    | (int) "c \<noteq> B CHR ''.''" "c \<noteq> B CHR ''#''" "\<not> (length sb = 0 \<or> \<not> hasDigit)"
        "\<not> (c = B CHR ''E'' \<or> c = B CHR ''e'')"
    by blast
  then show ?thesis
  proof cases
    case dot
    with res r3 have "readNumberTail d p [] (sb @ [c]) False c3 ok3 p3 = (t, okr, q)" by simp
    from readNumberTail_pos [OF this b3(1) b3(3)] b3(2) pl show ?thesis by auto
  next
    case radix
    with res r3 have "readNumberTail d p sb [] True c3 ok3 p3 = (t, okr, q)" by simp
    from readNumberTail_pos [OF this b3(1) b3(3)] b3(2) pl show ?thesis by auto
  next
    case fail
    with res pl show ?thesis by (auto simp: zeroToken_def)
  next
    case exp1
    with res r3 r4
    have "readNumberTail d p [] (sb @ [c] @ [c3]) True c4 ok4 p4 = (t, okr, q)" by simp
    from readNumberTail_pos [OF this b4(1) b4(3)] b4(2) pl show ?thesis by auto
  next
    case exp2
    with res r3 have "readNumberTail d p [] (sb @ [c]) True c3 ok3 p3 = (t, okr, q)" by simp
    from readNumberTail_pos [OF this b3(1) b3(3)] b3(2) pl show ?thesis by auto
  next
    case int
    with res have "q = (if ok then p2 - 1 else p2)" "Kind t \<noteq> CharString" by auto
    with b2 show ?thesis by auto
  qed
qed

lemma readNumber_pos:
  assumes "readNumber d p = (t, okr, q)"
  shows "p \<le> q \<and> (p \<le> length d \<longrightarrow> q \<le> length d) \<and> Kind t \<noteq> CharString"
proof -
  obtain c0 ok0 p0 where r0: "read d p = (c0, ok0, p0)" by (cases "read d p") auto
  obtain cs oks ps where rs: "read d p0 = (cs, oks, ps)" by (cases "read d p0") auto
  have nz: "B CHR ''+'' \<noteq> (0::byte)" "B CHR ''-'' \<noteq> (0::byte)" by (simp_all add: B_def)
  show ?thesis
  proof (cases "c0 = B CHR ''+'' \<or> c0 = B CHR ''-''")
    case True
    obtain sb c ok p2 where rd: "readDigits d [c0] cs ok0 ps = (sb, c, ok, p2)"
      by (cases "readDigits d [c0] cs ok0 ps") auto
    have b1: "p \<le> ps" "ok0 \<longrightarrow> p < ps" "p \<le> length d \<longrightarrow> ps \<le> length d"
      using read_pos [OF r0] read_pos [OF rs] nz True by auto
    note res = assms [unfolded readNumber_def Let_def r0 rs prod.case if_P [OF True] rd]
    from readNumber_rest_pos [OF rd b1(1) b1(2) res] b1(3) show ?thesis by simp
  next
    case False
    obtain sb c ok p2 where rd: "readDigits d [] c0 ok0 p0 = (sb, c, ok, p2)"
      by (cases "readDigits d [] c0 ok0 p0") auto
    have b1: "p \<le> p0" "ok0 \<longrightarrow> p < p0" "p \<le> length d \<longrightarrow> p0 \<le> length d"
      using read_pos [OF r0] by auto
    note res = assms [unfolded readNumber_def Let_def r0 prod.case if_not_P [OF False] rd]
    from readNumber_rest_pos [OF rd b1(1) b1(2) res] b1(3) show ?thesis by simp
  qed
qed

lemma wordLoop_pos:
  "wordLoop d out ch ok q = (out', ok', q') \<Longrightarrow>
     q \<le> q' \<and> (q \<le> length d \<longrightarrow> q' \<le> length d) \<and> (ok' \<longrightarrow> (ok \<and> q' = q) \<or> q < q')"
proof (induction d out ch ok q rule: wordLoop.induct)
  case (1 d outBuf ch ok q)
  show ?case
  proof (cases "\<not> isDelimiter ch")
    case True
    obtain c1 o1 q1 where r: "read d q = (c1, o1, q1)" by (cases "read d q") auto
    have "wordLoop d outBuf ch ok q = wordLoop d (outBuf @ [ch]) c1 o1 q1"
      using True r by (subst wordLoop.simps) simp
    with "1.prems" have "wordLoop d (outBuf @ [ch]) c1 o1 q1 = (out', ok', q')" by simp
    from "1.IH" [OF True r [symmetric] refl this] read_pos [OF r] show ?thesis by auto
  next
    case False
    then have "wordLoop d outBuf ch ok q = (outBuf, ok, q)" by (subst wordLoop.simps) simp
    with "1.prems" show ?thesis by simp
  qed
qed

lemma readWord_pos:
  assumes "readWord d p = (out, p')"
  shows "p \<le> p' \<and> (p \<le> length d \<longrightarrow> p' \<le> length d)"
proof -
  obtain ch ok p1 where r1: "read d p = (ch, ok, p1)" by (cases "read d p") auto
  obtain ch2 ok2 p2 where r2: "read d p1 = (ch2, ok2, p2)" by (cases "read d p1") auto
  obtain ob ok3 p3 where w: "wordLoop d [ch] ch2 ok2 p2 = (ob, ok3, p3)"
    by (cases "wordLoop d [ch] ch2 ok2 p2") auto
  from assms have "p' = (if ok3 then p3 - 1 else p3)"
    by (simp add: readWord_def r1 r2 w)
  with read_pos [OF r1] read_pos [OF r2] wordLoop_pos [OF w] show ?thesis by auto
qed

lemma readName_kind: "readName d p out = (t, e, p') \<Longrightarrow> Kind t \<noteq> CharString"
proof (induction d p out rule: readName.induct)
  case (1 d p outBuf)
  from "1.prems" "1.IH" show ?case
    by (subst (asm) readName.simps) (auto simp: zeroToken_def split: prod.splits if_splits)
qed

lemma readHex_kind: "readHex d v ok p out = (t, e, p') \<Longrightarrow> Kind t \<noteq> CharString"
proof (induction d v ok p out rule: readHex.induct)
  case (1 d v1 ok1 p outBuf)
  from "1.prems" "1.IH" show ?case
    by (subst (asm) readHex.simps) (auto simp: zeroToken_def split: prod.splits if_splits)
qed

text \<open>\<^verbatim>\<open>Token.Int\<close> returns an \<^verbatim>\<open>int\<close> of 64 bits.\<close>

lemma decimalValue_nonneg: "0 \<le> decimalValue ds"
proof -
  have "0 \<le> n \<Longrightarrow> 0 \<le> foldl (\<lambda>n c. 10 * n + uint (c - B CHR ''0'')) n ds" for n
    by (induction ds arbitrary: n) simp_all
  then show ?thesis by (simp add: decimalValue_def)
qed

lemma roundFloat64_nonneg: "roundFloat64 n = Some v \<Longrightarrow> 0 \<le> n \<Longrightarrow> 0 \<le> v"
  by (auto simp: roundFloat64_def Let_def pos_imp_zdiv_nonneg_iff split: if_splits)

lemma Token_Int_range: "Token_Int t = Some n \<Longrightarrow> - (2 ^ 63) \<le> n \<and> n < 2 ^ 63"
  using roundFloat64_nonneg [OF _ decimalValue_nonneg]
  by (fastforce simp: Token_Int_def Let_def split: if_splits option.splits)

text \<open>
  \<open>readCharString\<close> on data of less than \<^verbatim>\<open>2^63\<close> bytes (a Go slice has no more): it moves the
  position forward, and leaves it within the data exactly when the CharString holds as many
  bytes as declared.
\<close>

lemma wrap64_id: "- (2 ^ 63) \<le> x \<Longrightarrow> x < 2 ^ 63 \<Longrightarrow> wrap64 x = x"
  by (simp add: wrap64_def)

lemma wrap64_high:
  assumes "2 ^ 63 \<le> x" and "x < 2 ^ 64"
  shows "wrap64 x = x - 2 ^ 64"
proof -
  have "(x + 2 ^ 63) mod 2 ^ 64 = (x + 2 ^ 63 - 2 ^ 64) mod 2 ^ 64"
    by (simp only: minus_mod_self2)
  also have "\<dots> = x + 2 ^ 63 - 2 ^ 64" using assms by simp
  finally show ?thesis by (simp add: wrap64_def)
qed

lemma readCharString_pos:
  assumes r: "readCharString d p n = Some (t, q)"
    and pl: "p \<le> length d" and dl: "length d < 2 ^ 63"
  shows "Kind t = CharString" and "p < q"
    and "n = int (length (Value t)) \<Longrightarrow> q \<le> length d"
    and "- (2 ^ 63) \<le> n \<Longrightarrow> n < 2 ^ 63 \<Longrightarrow> q \<le> length d \<Longrightarrow> n = int (length (Value t))"
proof -
  define p1 where "p1 = wrap64 (int p + 1)"
  define m0 where "m0 = wrap64 (p1 + n)"
  define m where "m = (if m0 \<ge> int (length d) then int (length d) else m0)"
  from r have c: "0 \<le> p1" "p1 \<le> m"
    and t: "t = \<lparr>Value = take (nat m - nat p1) (drop (nat p1) d), Kind = CharString\<rparr>"
    and q: "q = nat m0"
    by (auto simp: readCharString_def Let_def p1_def m0_def m_def split: if_splits)
  from t show "Kind t = CharString" by simp
  from pl dl have il: "int (length d) < 2 ^ 63" "int p \<le> int (length d)" by simp_all
  have p1: "p1 = int p + 1"
  proof (cases "int p + 1 < 2 ^ 63")
    case True
    then show ?thesis by (simp add: p1_def wrap64_id)
  next
    case False
    with il have "2 ^ 63 \<le> int p + 1" "int p + 1 < 2 ^ 64" by simp_all
    from wrap64_high [OF this] il have "p1 < 0" by (simp add: p1_def)
    with c show ?thesis by simp
  qed
  have ml: "m \<le> int (length d)" "m \<le> m0" by (simp_all add: m_def)
  with c p1 q show "p < q" by simp
  from ml c p1 have len: "int (length (Value t)) = m - p1" by (simp add: t)
  {
    assume "n = int (length (Value t))"
    with len have "p1 + n = m" by simp
    moreover from c ml il have "- (2 ^ 63) \<le> m" "m < 2 ^ 63" by simp_all
    ultimately have "m0 = m" by (simp add: m0_def wrap64_id)
    with q ml c show "q \<le> length d" by simp
  }
  {
    assume n: "- (2 ^ 63) \<le> n" "n < 2 ^ 63" and ql: "q \<le> length d"
    from c ml have "0 \<le> m0" by simp
    with ql q have "m0 \<le> int (length d)" by simp
    then have m0: "m0 = m" by (simp add: m_def)
    have "p1 + n < 2 ^ 63"
    proof (rule ccontr)
      assume "\<not> p1 + n < 2 ^ 63"
      with n p1 il have "2 ^ 63 \<le> p1 + n" "p1 + n < 2 ^ 64" by simp_all
      from wrap64_high [OF this] this(2) have "m0 < 0" by (simp add: m0_def)
      with ml c show False by simp
    qed
    moreover from n p1 have "- (2 ^ 63) \<le> p1 + n" by simp
    ultimately have "m0 = p1 + n" by (simp add: m0_def wrap64_id)
    with m0 len show "n = int (length (Value t))" by simp
  }
qed

text \<open>
  \<open>nextToken\<close> never moves the position back; it makes a CharString only after an integer;
  and it leaves the position within the data exactly when it started there and its token,
  if a CharString, lies within the data.
\<close>

lemma scan_plain:
  "p \<le> q \<Longrightarrow> (p \<le> length d \<longrightarrow> q \<le> length d) \<Longrightarrow> Kind t \<noteq> CharString \<Longrightarrow>
     p \<le> q \<and> (Kind t = CharString \<longrightarrow> Kind prev = Integer)
     \<and> (q \<le> length d \<longleftrightarrow> p \<le> length d \<and> fitsAfter prev t)"
  by (auto simp: fitsAfter_def)

lemma nextToken_scan:
  "nextToken prev d p = Some (t, e, q) \<Longrightarrow> length d < 2 ^ 63 \<Longrightarrow>
     p \<le> q \<and> (Kind t = CharString \<longrightarrow> Kind prev = Integer)
     \<and> (q \<le> length d \<longleftrightarrow> p \<le> length d \<and> fitsAfter prev t)"
proof (induction prev d p rule: nextToken.induct)
  case (1 previous d p)
  obtain c0 ok0 p0 where r0: "read d p = (c0, ok0, p0)" by (cases "read d p") auto
  obtain ch ok p1 where s: "skipWhitespace d c0 ok0 p0 = (ch, ok, p1)"
    by (cases "skipWhitespace d c0 ok0 p0") auto
  obtain c2 ok2 p2 where r2: "read d p1 = (c2, ok2, p2)" by (cases "read d p1") auto
  have b: "p \<le> p1" "p \<le> length d \<longrightarrow> p1 \<le> length d" "ok \<longrightarrow> p < p1"
    using read_pos [OF r0] skipWhitespace_pos [OF s] skipWhitespace_bound [OF s]
      skipWhitespace_after_read [OF r0, of ch p1] s
    by auto
  have b2: "p \<le> p2" "p \<le> length d \<longrightarrow> p2 \<le> length d"
    using read_pos [OF r2] b by auto
  note u = "1.prems"(1) [unfolded nextToken.simps [of previous d p] r0 s prod.case]
  show ?case
  proof (cases ok)
    case False
    with u have "q = p1" "Kind t \<noteq> CharString" by (auto simp: kindToken_def)
    with b show ?thesis by (intro scan_plain) simp_all
  next
    case True
    consider (delim) "ch = B CHR ''['' \<or> ch = B CHR '']'' \<or> ch = B CHR ''{'' \<or> ch = B CHR ''}''"
      | (name) "ch = B CHR ''/''" | (gt) "ch = B CHR ''>''" | (lt) "ch = B CHR ''<''"
      | (pct) "ch = B CHR ''%''" | (str) "ch = B CHR ''(''"
      | (dflt) "ch \<noteq> B CHR ''[''" "ch \<noteq> B CHR '']''" "ch \<noteq> B CHR ''{''" "ch \<noteq> B CHR ''}''"
          "ch \<noteq> B CHR ''/''" "ch \<noteq> B CHR ''>''" "ch \<noteq> B CHR ''<''" "ch \<noteq> B CHR ''%''"
          "ch \<noteq> B CHR ''(''"
      by blast
    then show ?thesis
    proof cases
      case delim
      with u True have "q = p1" "Kind t \<noteq> CharString" by (auto simp: B_def kindToken_def)
      with b show ?thesis by (intro scan_plain) simp_all
    next
      case name
      with u True have "readName d p1 [] = (t, e, q)" by (simp add: B_def)
      from readName_pos [OF this] readName_kind [OF this] b show ?thesis
        by (intro scan_plain) auto
    next
      case gt
      with u True r2 have "q = p2" "Kind t \<noteq> CharString"
        by (auto simp: B_def kindToken_def zeroToken_def split: if_splits)
      with b2 show ?thesis by (intro scan_plain) simp_all
    next
      case lt
      with u True r2
      have "(q = p2 \<and> Kind t \<noteq> CharString) \<or> readHex d c2 ok2 p2 [] = (t, e, q)"
        by (auto simp: B_def kindToken_def split: if_splits)
      with readHex_pos [of d c2 ok2 p2 "[]" t e q] readHex_kind [of d c2 ok2 p2 "[]" t e q] b2
      show ?thesis by (intro scan_plain) auto
    next
      case pct
      obtain c3 ok3 p3 where sc: "skipComment d c2 ok2 p2 = (c3, ok3, p3)"
        by (cases "skipComment d c2 ok2 p2") auto
      from u True pct r2 sc have nt: "nextToken previous d p3 = Some (t, e, q)"
        by (simp add: B_def)
      have n: "\<not> \<not> ok" "ch \<noteq> B CHR ''[''" "ch \<noteq> B CHR '']''" "ch \<noteq> B CHR ''{''"
        "ch \<noteq> B CHR ''}''" "ch \<noteq> B CHR ''/''" "ch \<noteq> B CHR ''>''" "ch \<noteq> B CHR ''<''"
        using True pct by (simp_all add: B_def)
      from "1.IH" [OF r0 [symmetric] refl s [symmetric] refl n pct r2 [symmetric] refl
          sc [symmetric] refl nt "1.prems"(2)]
      have "p3 \<le> q \<and> (Kind t = CharString \<longrightarrow> Kind previous = Integer)
            \<and> (q \<le> length d \<longleftrightarrow> p3 \<le> length d \<and> fitsAfter previous t)" .
      with skipComment_pos [OF sc] skipComment_bound [OF sc] b2 show ?thesis by auto
    next
      case str
      obtain ob o3 p3 where rs: "readString d p1 0 [] = (ob, o3, p3)"
        by (cases "readString d p1 0 []") auto
      from u True str rs have "q = p3" "Kind t \<noteq> CharString"
        by (auto simp: B_def zeroToken_def split: if_splits)
      with readString_pos [OF rs] b show ?thesis by (intro scan_plain) auto
    next
      case dflt
      obtain tok okn pn where rn: "readNumber d (p1 - 1) = (tok, okn, pn)"
        by (cases "readNumber d (p1 - 1)") auto
      obtain ob pw where rw: "readWord d pn = (ob, pw)" by (cases "readWord d pn") auto
      have pl: "p < length d"
        using skipWhitespace_after_read [OF r0, of ch p1] s True by auto
      have b3: "p \<le> p1 - 1" "p1 - 1 \<le> length d" using b True pl by auto
      from readNumber_pos [OF rn] b3
      have bn: "p \<le> pn" "pn \<le> length d" "Kind tok \<noteq> CharString" by auto
      from readWord_pos [OF rw] bn have bw: "p \<le> pw" "pw \<le> length d" by auto
      from u True dflt rn rw
      have "(q = pn \<and> t = tok) \<or> (q = pw \<and> Kind t \<noteq> CharString)
            \<or> (Kind previous = Integer
                \<and> (\<exists>f. Token_Int previous = Some f \<and> readCharString d pw f = Some (t, q)))"
        by (auto simp: zeroToken_def split: if_splits option.splits)
      then consider (num) "q = pn" "t = tok" | (word) "q = pw" "Kind t \<noteq> CharString"
        | (cs) f where "Kind previous = Integer" "Token_Int previous = Some f"
            "readCharString d pw f = Some (t, q)"
        by blast
      then show ?thesis
      proof cases
        case num
        with bn pl show ?thesis by (intro scan_plain) simp_all
      next
        case word
        with bw pl show ?thesis by (intro scan_plain) simp_all
      next
        case cs
        note rc = readCharString_pos [OF cs(3) bw(2) "1.prems"(2)]
        from Token_Int_range [OF cs(2)] have fr: "- (2 ^ 63) \<le> f" "f < 2 ^ 63" by simp_all
        have "q \<le> length d \<longleftrightarrow> f = int (length (Value t))"
          using rc(3) rc(4) [OF fr] by blast
        with rc(1,2) bw pl cs(1,2) show ?thesis by (auto simp: fitsAfter_def)
      qed
    qed
  qed
qed

text \<open>The same for the calls that change a tokenizer, and for a list of them.\<close>

lemma SetPosition_positions:
  assumes "SetPosition p tk = Some tk1" and dl: "length (data tk) < 2 ^ 63"
  shows "data tk1 = data tk \<and> inOrder tk1
         \<and> (pos tk1 \<le> length (data tk) \<longleftrightarrow> p \<le> int (length (data tk)) \<and> charStringFits tk1)"
proof -
  from assms(1) obtain t1 e1 p1 t2 e2 p2 where
    a: "nextToken zeroToken (data tk) (nat p) = Some (t1, e1, p1)" and
    b: "nextToken t1 (data tk) p1 = Some (t2, e2, p2)" and
    c: "tk1 = tk\<lparr>currentPos := nat p, aToken := t1, aError := e1, nextPos := p1,
                     aaToken := t2, aaError := e2, pos := p2\<rparr>" and
    d: "0 \<le> p"
    by (auto simp: SetPosition_def split: if_splits option.splits)
  from nextToken_scan [OF a dl]
  have 1: "nat p \<le> p1" "p1 \<le> length (data tk) \<longleftrightarrow> nat p \<le> length (data tk)"
    by (auto simp: fitsAfter_def zeroToken_def)
  from nextToken_scan [OF b dl]
  have 2: "p1 \<le> p2" "p2 \<le> length (data tk) \<longleftrightarrow> p1 \<le> length (data tk) \<and> fitsAfter t1 t2"
    by auto
  from d have "nat p \<le> length (data tk) \<longleftrightarrow> p \<le> int (length (data tk))" by auto
  with 1 2 c show ?thesis by (simp add: inOrder_def charStringFits_def)
qed

lemma NextToken_positions:
  assumes "NextToken tk = Some (r, tk1)" and dl: "length (data tk) < 2 ^ 63"
    and o: "inOrder tk"
  shows "data tk1 = data tk \<and> inOrder tk1
         \<and> (pos tk1 \<le> length (data tk) \<longleftrightarrow> pos tk \<le> length (data tk) \<and> charStringFits tk1)"
proof (cases "startsBinary (aaToken tk)")
  case True
  with assms(1) have "tk1 = tk\<lparr>aToken := aaToken tk, aError := aaError tk,
      currentPos := nextPos tk, nextPos := pos tk, aaToken := kindToken EOF, aaError := None\<rparr>"
    by (auto simp: NextToken_def Let_def)
  with o show ?thesis
    by (simp add: inOrder_def charStringFits_def fitsAfter_def kindToken_def)
next
  case False
  with assms(1) obtain t e p where
    a: "nextToken (aaToken tk) (data tk) (pos tk) = Some (t, e, p)" and
    b: "tk1 = tk\<lparr>aToken := aaToken tk, aError := aaError tk, currentPos := nextPos tk,
                     nextPos := pos tk, aaToken := t, aaError := e, pos := p\<rparr>"
    by (auto simp: NextToken_def Let_def split: option.splits)
  from nextToken_scan [OF a dl] o b show ?thesis
    by (simp add: inOrder_def charStringFits_def)
qed

lemma SkipBytes_positions:
  assumes "SkipBytes n tk = Some (bs, tk1)" and dl: "length (data tk) < 2 ^ 63"
  shows "data tk1 = data tk \<and> inOrder tk1
         \<and> (pos tk1 \<le> length (data tk) \<longleftrightarrow> charStringFits tk1)"
proof -
  define target0 where "target0 = wrap64 (int (currentPos tk) + n)"
  define target where
    "target = (if target0 > int (length (data tk)) then int (length (data tk)) else target0)"
  from assms(1) have "SetPosition target tk = Some tk1"
    by (auto simp: SkipBytes_def Let_def target_def target0_def split: if_splits option.splits)
  moreover have "target \<le> int (length (data tk))" by (simp add: target_def)
  ultimately show ?thesis using SetPosition_positions [of target tk tk1] dl by simp
qed

lemma doCall_positions:
  assumes "doCall c tk = Some tk1" and dl: "length (data tk) < 2 ^ 63" and o: "inOrder tk"
  shows "data tk1 = data tk \<and> inOrder tk1
         \<and> (pos tk1 \<le> length (data tk1)
              \<longleftrightarrow> staysWithin (pos tk \<le> length (data tk)) c tk tk1)"
proof (cases c)
  case CallNextToken
  with assms(1) obtain r where "NextToken tk = Some (r, tk1)" by auto
  from NextToken_positions [OF this dl o] CallNextToken show ?thesis by simp
next
  case (CallSetPosition p)
  with assms(1) have "SetPosition p tk = Some tk1" by simp
  from SetPosition_positions [OF this dl] CallSetPosition show ?thesis by simp
next
  case (CallSkipBytes n)
  with assms(1) obtain bs where "SkipBytes n tk = Some (bs, tk1)" by auto
  from SkipBytes_positions [OF this dl] CallSkipBytes show ?thesis by simp
qed

lemma calls_positions:
  "calls cs tk = Some tk1 \<Longrightarrow> length (data tk) < 2 ^ 63 \<Longrightarrow> inOrder tk \<Longrightarrow>
     data tk1 = data tk \<and> inOrder tk1
     \<and> (pos tk1 \<le> length (data tk1) \<longleftrightarrow> withinDataFrom (pos tk \<le> length (data tk)) cs tk)"
proof (induction cs arbitrary: tk)
  case Nil
  then show ?case by simp
next
  case (Cons c cs)
  from Cons.prems(1) obtain tk2 where c: "doCall c tk = Some tk2"
    and r: "calls cs tk2 = Some tk1"
    by (auto split: option.splits)
  note s = doCall_positions [OF c Cons.prems(2,3)]
  note d2 = s [THEN conjunct1] and o2 = s [THEN conjunct2, THEN conjunct1]
    and e2 = s [THEN conjunct2, THEN conjunct2]
  from d2 Cons.prems(2) have dl: "length (data tk2) < 2 ^ 63" by simp
  note ih = Cons.IH [OF r dl o2, unfolded e2]
  show ?case
  proof (intro conjI)
    from ih [THEN conjunct1] d2 show "data tk1 = data tk" by simp
    from ih show "inOrder tk1" by simp
    from ih [THEN conjunct2, THEN conjunct2] c
    show "pos tk1 \<le> length (data tk1)
            \<longleftrightarrow> withinDataFrom (pos tk \<le> length (data tk)) (c # cs) tk"
      by simp
  qed
qed

text \<open>
  The position of a state that a run reaches is within the data exactly when the run stays
  within the data.
\<close>

lemma run_positions:
  assumes "NewTokenizer d = Some tk0" and "calls cs tk0 = Some tk" and dl: "length d < 2 ^ 63"
  shows "data tk = d \<and> inOrder tk \<and> (pos tk \<le> length d \<longleftrightarrow> withinData cs tk0)"
proof -
  let ?tk = "\<lparr>data = d, aError = None, aToken = zeroToken, aaError = None,
              aaToken = zeroToken, pos = 0, currentPos = 0, nextPos = 0\<rparr>"
  from assms(1) have sp: "SetPosition 0 ?tk = Some tk0" by (simp add: NewTokenizer_def)
  from dl have "length (data ?tk) < 2 ^ 63" by simp
  note s = SetPosition_positions [OF sp this]
  from s have 0: "data tk0 = d" "inOrder tk0" by simp_all
  from s have "(pos tk0 \<le> length (data ?tk)) = charStringFits tk0" by simp
  with 0 have e0: "(pos tk0 \<le> length (data tk0)) = charStringFits tk0" by simp
  from 0 dl have "length (data tk0) < 2 ^ 63" by simp
  note c = calls_positions [OF assms(2) this 0(2), unfolded e0]
  note c1 = c [THEN conjunct1] and c2 = c [THEN conjunct2, THEN conjunct1]
    and c3 = c [THEN conjunct2, THEN conjunct2]
  from c1 c3 0 have "(pos tk \<le> length d) = withinData cs tk0" by (simp add: withinData_def)
  with c1 c2 0 show ?thesis by simp
qed

text \<open>At or beyond the end of the data \<open>nextToken\<close> returns EOF and keeps the position.\<close>

lemma nextToken_at_end:
  assumes "length d \<le> p"
  shows "nextToken prev d p = Some (kindToken EOF, None, p)"
proof -
  from assms have r: "read d p = (0, False, p)" by (simp add: read_def)
  have s: "skipWhitespace d 0 False p = (0, False, p)" by (subst skipWhitespace.simps) simp
  show ?thesis by (subst nextToken.simps) (simp add: r s)
qed

lemma SetPosition_beyond:
  assumes "int (length (data tk)) \<le> p"
  shows "\<exists>tk1. SetPosition p tk = Some tk1 \<and> currentPos tk1 = nat p \<and> nextPos tk1 = nat p
           \<and> pos tk1 = nat p"
proof -
  from assms have "length (data tk) \<le> nat p" "\<not> p < 0" by simp_all
  then show ?thesis by (simp add: SetPosition_def nextToken_at_end)
qed

text \<open>
  Claim C3, as the code has it. On data of less than \<^verbatim>\<open>2^63\<close> bytes, after a tokenizer is
  built and after every \<open>NextToken\<close>, \<open>SetPosition\<close> and \<open>SkipBytes\<close> that returns, the three
  positions are in order. The last of them is within the data whenever the run stayed
  within the data: since the tokenizer was last positioned, \<open>SetPosition\<close> was given a
  position of at most \<^verbatim>\<open>len(data)\<close> and every CharString scanned holds as many bytes as the
  integer before it declares. And \<open>SetPosition\<close> at or beyond the end of the data returns
  and leaves the three positions where it is told. (Where the position is after a
  CharString that declares more bytes than the data holds is left open here.)
\<close>

theorem positions_ordered:
  assumes "NewTokenizer d = Some tk0" and "calls cs tk0 = Some tk" and "length d < 2 ^ 63"
  shows "currentPos tk \<le> nextPos tk \<and> nextPos tk \<le> pos tk
         \<and> (withinData cs tk0 \<longrightarrow> pos tk \<le> length (data tk))
         \<and> (int (length (data tk)) \<le> p \<longrightarrow>
              (\<exists>tk1. SetPosition p tk = Some tk1 \<and> currentPos tk1 = nat p
                     \<and> nextPos tk1 = nat p \<and> pos tk1 = nat p))"
  using run_positions [OF assms] SetPosition_beyond [of tk p] by (simp add: inOrder_def)


text \<open>
  A run that scans a CharString of the three bytes it declares, and then sets the position
  beyond the 13 bytes of the data.
\<close>

theorem positions_ordered_witness:
  "map_option (withinData [CallNextToken]) (NewTokenizer (bytes ''7 3 RD abc /x'')) = Some True
   \<and> map_option (\<lambda>tk. (Kind (aaToken tk), currentPos tk \<le> nextPos tk \<and> nextPos tk \<le> pos tk
                           \<and> pos tk \<le> length (data tk)))
       (runFrom (bytes ''7 3 RD abc /x'') [CallNextToken])
     = Some (CharString, True)
   \<and> map_option (\<lambda>tk. (currentPos tk, nextPos tk, pos tk, length (data tk)))
       (runFrom (bytes ''7 3 RD abc /x'') [CallNextToken, CallSetPosition 20])
     = Some (20, 20, 20, 13)"
proof -
  have r: "map_option (\<lambda>tk. (Kind (aaToken tk), length (data tk)))
             (runFrom (bytes ''7 3 RD abc /x'') [CallNextToken]) = Some (CharString, 13)"
    by code_simp
  then obtain tk0 tk where a: "NewTokenizer (bytes ''7 3 RD abc /x'') = Some tk0"
    and b: "calls [CallNextToken] tk0 = Some tk"
    and k: "Kind (aaToken tk) = CharString" "length (data tk) = 13"
    by (auto simp: runFrom_def split: option.splits)
  have q: "map_option (withinData [CallNextToken]) (NewTokenizer (bytes ''7 3 RD abc /x''))
           = Some True"
    by code_simp
  with a have w: "withinData [CallNextToken] tk0" by simp
  have l: "length (bytes ''7 3 RD abc /x'') < 2 ^ 63" by (simp add: bytes_def)
  from positions_ordered [OF a b l, of 20] w k obtain tk1 where
    o: "currentPos tk \<le> nextPos tk" "nextPos tk \<le> pos tk" "pos tk \<le> length (data tk)"
    and s: "SetPosition 20 tk = Some tk1" "currentPos tk1 = 20" "nextPos tk1 = 20" "pos tk1 = 20"
    by auto
  from SetPosition_positions [OF s(1)] k have "length (data tk1) = 13" by simp
  moreover from b obtain r where "NextToken tk0 = Some (r, tk)" by (auto split: option.splits)
  ultimately show ?thesis using a q o s k by (simp add: runFrom_def)
qed

text \<open>
  The claim as stated fails: on \<^verbatim>\<open>9 RD abc\<close> the new tokenizer holds the CharString \<^verbatim>\<open>abc\<close>,
  cut at the end of the data, and its position is 14, beyond the 8 bytes of the data. And
  \<open>SetPosition\<close> keeps a position beyond the data as it is given: 5 on the 3 bytes \<^verbatim>\<open>abc\<close>.
\<close>

theorem positions_ordered_counterexample:
  "map_option (\<lambda>tk. (PeekPeekToken tk, currentPos tk, nextPos tk, pos tk, length (data tk)))
     (NewTokenizer (bytes ''9 RD abc''))
   = Some ((\<lparr>Value = bytes ''abc'', Kind = CharString\<rparr>, None), 0, 1, 14, 8)
   \<and> map_option (\<lambda>tk. (currentPos tk, nextPos tk, pos tk, length (data tk)))
       (runFrom (bytes ''abc'') [CallSetPosition 5])
     = Some (5, 5, 5, 3)"
  by code_simp

section \<open>The previous token\<close>

text \<open>
  \<open>nextToken\<close> looks at the previous token only where the word is \<^verbatim>\<open>RD\<close> or \<^verbatim>\<open>-|\<close>, and it
  panics only after an integer.
\<close>

lemma nextToken_previous:
  "Kind prev \<noteq> Integer \<or> \<not> charStringTrigger d p \<Longrightarrow>
     nextToken prev d p = nextToken zeroToken d p"
proof (induction prev d p rule: nextToken.induct)
  case (1 previous d p)
  obtain c0 ok0 p0 where r0: "read d p = (c0, ok0, p0)" by (cases "read d p") auto
  obtain ch ok p1 where s: "skipWhitespace d c0 ok0 p0 = (ch, ok, p1)"
    by (cases "skipWhitespace d c0 ok0 p0") auto
  obtain c2 ok2 p2 where r2: "read d p1 = (c2, ok2, p2)" by (cases "read d p1") auto
  obtain c3 ok3 p3 where sc: "skipComment d c2 ok2 p2 = (c3, ok3, p3)"
    by (cases "skipComment d c2 ok2 p2") auto
  obtain tok okn pn where rn: "readNumber d (p1 - 1) = (tok, okn, pn)"
    by (cases "readNumber d (p1 - 1)") auto
  obtain ob pw where rw: "readWord d pn = (ob, pw)" by (cases "readWord d pn") auto
  note u1 = nextToken.simps [of previous d p]
  note u2 = nextToken.simps [of zeroToken d p]
  have z: "Kind zeroToken \<noteq> Integer" by (simp add: zeroToken_def)
  show ?case
  proof (cases "ok \<and> ch = B CHR ''%''")
    case True
    then have e1: "nextToken previous d p = nextToken previous d p3"
      and e2: "nextToken zeroToken d p = nextToken zeroToken d p3"
      by (simp_all add: u1 u2 r0 s r2 sc B_def)
    from e2 have "charStringTrigger d p = charStringTrigger d p3"
      by (simp add: charStringTrigger_def)
    with "1.prems" have h: "Kind previous \<noteq> Integer \<or> \<not> charStringTrigger d p3" by simp
    have n: "\<not> \<not> ok" "ch \<noteq> B CHR ''[''" "ch \<noteq> B CHR '']''" "ch \<noteq> B CHR ''{''"
      "ch \<noteq> B CHR ''}''" "ch \<noteq> B CHR ''/''" "ch \<noteq> B CHR ''>''" "ch \<noteq> B CHR ''<''"
      "ch = B CHR ''%''"
      using True by (simp_all add: B_def)
    from "1.IH" [OF r0 [symmetric] refl s [symmetric] refl n r2 [symmetric] refl
        sc [symmetric] refl h]
    have "nextToken previous d p3 = nextToken zeroToken d p3" .
    with e1 e2 show ?thesis by simp
  next
    case False
    show ?thesis
    proof (cases "Kind previous = Integer")
      case notint: False
      with False z rn rw show ?thesis
        by (simp add: u1 u2 r0 s)
    next
      case int: True
      with "1.prems" have nt: "\<not> charStringTrigger d p" by simp
      show ?thesis
      proof (cases "ok \<and> ch \<noteq> B CHR ''['' \<and> ch \<noteq> B CHR '']'' \<and> ch \<noteq> B CHR ''{''
          \<and> ch \<noteq> B CHR ''}'' \<and> ch \<noteq> B CHR ''/'' \<and> ch \<noteq> B CHR ''>'' \<and> ch \<noteq> B CHR ''<''
          \<and> ch \<noteq> B CHR ''('' \<and> \<not> okn \<and> (ob = bytes ''RD'' \<or> ob = bytes ''-|'')")
        case True
        with False z rn rw
        have "nextToken zeroToken d p = Some (zeroToken, Some ExpectedInteger, pw)"
          by (simp add: u2 r0 s)
        then have "charStringTrigger d p" by (simp add: charStringTrigger_def)
        with nt show ?thesis by simp
      next
        case nontrigger: False
        with False rn rw show ?thesis
          by (simp add: u1 u2 r0 s; blast)
      qed
    qed
  qed
qed

lemma nextToken_None:
  "nextToken prev d p = None \<Longrightarrow> Kind prev = Integer"
proof (induction prev d p rule: nextToken.induct)
  case (1 previous d p)
  obtain c0 ok0 p0 where r0: "read d p = (c0, ok0, p0)" by (cases "read d p") auto
  obtain ch ok p1 where s: "skipWhitespace d c0 ok0 p0 = (ch, ok, p1)"
    by (cases "skipWhitespace d c0 ok0 p0") auto
  obtain c2 ok2 p2 where r2: "read d p1 = (c2, ok2, p2)" by (cases "read d p1") auto
  obtain c3 ok3 p3 where sc: "skipComment d c2 ok2 p2 = (c3, ok3, p3)"
    by (cases "skipComment d c2 ok2 p2") auto
  obtain sb so sp where rs: "readString d p1 0 [] = (sb, so, sp)"
    by (cases "readString d p1 0 []") auto
  obtain tok okn pn where rn: "readNumber d (p1 - 1) = (tok, okn, pn)"
    by (cases "readNumber d (p1 - 1)") auto
  obtain ob pw where rw: "readWord d pn = (ob, pw)" by (cases "readWord d pn") auto
  note u = "1.prems" [unfolded nextToken.simps [of previous d p] r0 s prod.case]
  show ?case
  proof (cases "ok \<and> ch = B CHR ''%''")
    case True
    with u r2 sc have nt: "nextToken previous d p3 = None" by (simp add: B_def)
    have n: "\<not> \<not> ok" "ch \<noteq> B CHR ''[''" "ch \<noteq> B CHR '']''" "ch \<noteq> B CHR ''{''"
      "ch \<noteq> B CHR ''}''" "ch \<noteq> B CHR ''/''" "ch \<noteq> B CHR ''>''" "ch \<noteq> B CHR ''<''"
      "ch = B CHR ''%''"
      using True by (simp_all add: B_def)
    from "1.IH" [OF r0 [symmetric] refl s [symmetric] refl n r2 [symmetric] refl
        sc [symmetric] refl nt]
    show ?thesis .
  next
    case False
    with u r2 rs rn rw show ?thesis
      by (auto split: if_splits option.splits)
  qed
qed

text \<open>What the lookahead slots hold, after \<open>SetPosition\<close> and along a forward scan.\<close>

lemma SetPosition_lookahead:
  assumes "SetPosition p tk = Some tk1"
  shows "lookahead zeroToken tk1 \<and> data tk1 = data tk"
proof -
  from assms obtain t1 e1 p1 t2 e2 p2 where
    a: "nextToken zeroToken (data tk) (nat p) = Some (t1, e1, p1)" and
    b: "nextToken t1 (data tk) p1 = Some (t2, e2, p2)" and
    c: "tk1 = tk\<lparr>currentPos := nat p, aToken := t1, aError := e1, nextPos := p1,
                     aaToken := t2, aaError := e2, pos := p2\<rparr>"
    by (auto simp: SetPosition_def split: if_splits option.splits)
  from a b c show ?thesis by (simp add: lookahead_def slotScanned_def)
qed

lemma NextToken_lookahead:
  assumes "lookahead prev tk" and "NextToken tk = Some (r, tk1)"
  shows "lookahead (fst r) tk1 \<and> data tk1 = data tk"
proof -
  from assms(1) have
    s: "slotScanned (aToken tk) (data tk) (nextPos tk) (aaToken tk) (aaError tk) (pos tk)"
    by (simp add: lookahead_def)
  show ?thesis
  proof (cases "startsBinary (aaToken tk)")
    case True
    with assms(2) have
      "tk1 = tk\<lparr>aToken := aaToken tk, aError := aaError tk, currentPos := nextPos tk,
                  nextPos := pos tk, aaToken := kindToken EOF, aaError := None\<rparr>"
      and "r = (aToken tk, aError tk)"
      by (auto simp: NextToken_def PeekToken_def Let_def)
    with s True show ?thesis by (simp add: lookahead_def slotScanned_def)
  next
    case False
    with assms(2) obtain t e p where
      a: "nextToken (aaToken tk) (data tk) (pos tk) = Some (t, e, p)" and
      b: "tk1 = tk\<lparr>aToken := aaToken tk, aError := aaError tk, currentPos := nextPos tk,
                       nextPos := pos tk, aaToken := t, aaError := e, pos := p\<rparr>" and
      c: "r = (aToken tk, aError tk)"
      by (auto simp: NextToken_def PeekToken_def Let_def split: option.splits)
    from s a b c show ?thesis by (simp add: lookahead_def slotScanned_def)
  qed
qed

lemma forward_lookahead:
  "lookahead zeroToken tk0 \<Longrightarrow> forward n tk0 = Some (prev, tk) \<Longrightarrow>
     lookahead prev tk \<and> data tk = data tk0"
proof (induction n arbitrary: prev tk)
  case 0
  then show ?case by simp
next
  case (Suc n)
  from Suc.prems(2) obtain t0 tk1 r where
    a: "forward n tk0 = Some (t0, tk1)" and b: "NextToken tk1 = Some (r, tk)" and c: "prev = fst r"
    by (auto split: option.splits)
  from Suc.IH [OF Suc.prems(1) a] have "lookahead t0 tk1" "data tk1 = data tk0" by simp_all
  with NextToken_lookahead [OF _ b] c show ?case by simp
qed

lemma scanFrom_lookahead:
  assumes "scanFrom d n = Some (prev, tk)"
  shows "lookahead prev tk \<and> data tk = d"
proof -
  from assms obtain tk0 where a: "NewTokenizer d = Some tk0" and b: "forward n tk0 = Some (prev, tk)"
    by (auto simp: scanFrom_def split: option.splits)
  from a have "lookahead zeroToken tk0" "data tk0 = d"
    using SetPosition_lookahead [of 0 _ tk0] by (simp_all add: NewTokenizer_def)
  with forward_lookahead [OF _ b] show ?thesis by simp
qed

text \<open>
  Claim C2, as the code has it. Let a forward scan of \<open>n\<close> calls of \<open>NextToken\<close> on a new
  tokenizer reach the state \<open>tk\<close>, with \<open>prev\<close> the token of the last call. If \<open>prev\<close> does
  not start binary data, and \<open>prev\<close> is not an integer that the word \<^verbatim>\<open>RD\<close> or \<^verbatim>\<open>-|\<close>
  follows at the current position, then \<open>SetPosition\<close> at the current position returns, and
  its +1 slot holds the token and error that the forward scan holds there. So the
  \<open>NextToken\<close> after it returns what the \<open>NextToken\<close> of the forward scan returns, where both
  return; and where that token does not start binary data, \<open>SetPosition\<close> leaves the very
  state of the forward scan.
\<close>

theorem SetPosition_resumes_forward_scan:
  assumes "scanFrom d n = Some (prev, tk)"
    and "\<not> startsBinary prev"
    and "\<not> (Kind prev = Integer \<and> charStringTrigger d (CurrentPosition tk))"
  shows "\<exists>tk1. SetPosition (int (CurrentPosition tk)) tk = Some tk1
           \<and> PeekToken tk1 = PeekToken tk
           \<and> (\<forall>r r1 tk2 tk3. NextToken tk = Some (r, tk2) \<and> NextToken tk1 = Some (r1, tk3)
                \<longrightarrow> r1 = r)
           \<and> (\<not> startsBinary (fst (PeekToken tk)) \<longrightarrow> tk1 = tk)"
proof -
  from scanFrom_lookahead [OF assms(1)] have l: "lookahead prev tk" and dt: "data tk = d"
    by simp_all
  from l assms(2) have "nextToken prev d (currentPos tk) = Some (aToken tk, aError tk, nextPos tk)"
    by (simp add: lookahead_def slotScanned_def dt)
  with nextToken_previous [of prev d "currentPos tk"] assms(3)
  have a: "nextToken zeroToken d (currentPos tk) = Some (aToken tk, aError tk, nextPos tk)"
    by (auto simp: CurrentPosition_def)
  from l have s: "slotScanned (aToken tk) d (nextPos tk) (aaToken tk) (aaError tk) (pos tk)"
    by (simp add: lookahead_def dt)
  obtain t2 e2 p2 where b: "nextToken (aToken tk) d (nextPos tk) = Some (t2, e2, p2)"
    and b1: "\<not> startsBinary (aToken tk) \<longrightarrow> t2 = aaToken tk \<and> e2 = aaError tk \<and> p2 = pos tk"
  proof (cases "nextToken (aToken tk) d (nextPos tk)")
    case None
    then have "Kind (aToken tk) = Integer" by (rule nextToken_None)
    with s None show ?thesis by (simp add: slotScanned_def startsBinary_def)
  next
    case (Some x)
    obtain t2 e2 p2 where "x = (t2, e2, p2)" by (cases x) auto
    with Some s that show ?thesis by (auto simp: slotScanned_def)
  qed
  define tk1 where "tk1 = tk\<lparr>currentPos := currentPos tk, aToken := aToken tk,
      aError := aError tk, nextPos := nextPos tk, aaToken := t2, aaError := e2, pos := p2\<rparr>"
  have sp: "SetPosition (int (CurrentPosition tk)) tk = Some tk1"
    using a b by (simp add: SetPosition_def CurrentPosition_def dt tk1_def)
  have pk: "PeekToken tk1 = PeekToken tk" by (simp add: PeekToken_def tk1_def)
  have nx: "\<forall>r r1 tk2 tk3. NextToken tk = Some (r, tk2) \<and> NextToken tk1 = Some (r1, tk3)
      \<longrightarrow> r1 = r"
    using pk by (auto simp: NextToken_def Let_def split: if_splits option.splits)
  have eq: "\<not> startsBinary (fst (PeekToken tk)) \<longrightarrow> tk1 = tk"
    using b1 by (simp add: PeekToken_def tk1_def)
  from sp pk nx eq show ?thesis by blast
qed

theorem SetPosition_resumes_forward_scan_witness:
  "map_option (\<lambda>(prev, tk). (prev, CurrentPosition tk, SetPosition (int (CurrentPosition tk)) tk = Some tk))
     (scanFrom (bytes ''1 (ab) /c'') 1)
   = Some (\<lparr>Value = bytes ''1'', Kind = Integer\<rparr>, 1, True)"
proof -
  have "map_option (\<lambda>(prev, tk). (prev, CurrentPosition tk, charStringTrigger (bytes ''1 (ab) /c'') 1,
                       startsBinary (fst (PeekToken tk))))
          (scanFrom (bytes ''1 (ab) /c'') 1)
        = Some (\<lparr>Value = bytes ''1'', Kind = Integer\<rparr>, 1, False, False)"
    by code_simp
  then obtain prev tk where a: "scanFrom (bytes ''1 (ab) /c'') 1 = Some (prev, tk)"
    and b: "prev = \<lparr>Value = bytes ''1'', Kind = Integer\<rparr>" and c: "CurrentPosition tk = 1"
    and d: "\<not> charStringTrigger (bytes ''1 (ab) /c'') 1"
    and e: "\<not> startsBinary (fst (PeekToken tk))"
    by auto
  have f: "\<not> startsBinary prev" by (simp add: b startsBinary_def)
  have g: "\<not> (Kind prev = Integer \<and> charStringTrigger (bytes ''1 (ab) /c'') (CurrentPosition tk))"
    using c d by simp
  from SetPosition_resumes_forward_scan [OF a f g] e
  have "SetPosition (int (CurrentPosition tk)) tk = Some tk" by auto
  with a b c show ?thesis by simp
qed

text \<open>
  The claim as stated fails: on \<^verbatim>\<open>3 RD abc\<close> the forward scan returns the integer, and at
  position 1 its next token is the CharString \<^verbatim>\<open>abc\<close>; after \<open>SetPosition 1\<close> the next token
  is the zero token with the error that asks for an integer, since \<open>SetPosition\<close> scans with
  the zero token as the previous one.
\<close>

theorem SetPosition_forgets_previous_counterexample:
  "map_option (\<lambda>(prev, tk). (prev, CurrentPosition tk, map_option fst (NextToken tk),
       map_option fst (Option.bind (SetPosition (int (CurrentPosition tk)) tk) NextToken)))
     (scanFrom (bytes ''3 RD abc'') 1)
   = Some (\<lparr>Value = bytes ''3'', Kind = Integer\<rparr>, 1,
           Some (\<lparr>Value = bytes ''abc'', Kind = CharString\<rparr>, None),
           Some (zeroToken, Some ExpectedInteger))"
  by code_simp

text \<open>
  The two other conditions are needed. After the word \<^verbatim>\<open>stream\<close> the forward scan holds the
  end of file that \<open>NextToken\<close> put there, and \<open>SetPosition\<close> scans the bytes instead.
\<close>

lemma forced_EOF_example:
  "map_option (\<lambda>(prev, tk). (prev, CurrentPosition tk, map_option fst (NextToken tk),
       map_option fst (Option.bind (SetPosition (int (CurrentPosition tk)) tk) NextToken)))
     (scanFrom (bytes ''a stream b'') 2)
   = Some (\<lparr>Value = bytes ''stream'', Kind = Other\<rparr>, 8,
           Some (kindToken EOF, None),
           Some (\<lparr>Value = bytes ''b'', Kind = Other\<rparr>, None))"
  by code_simp

text \<open>
  Before the word \<^verbatim>\<open>stream\<close>, \<open>SetPosition\<close> scans past it, so the \<open>NextToken\<close> after it may
  panic on bytes that the forward scan has not looked at.
\<close>

lemma panic_after_SetPosition_example:
  "map_option (\<lambda>(prev, tk). (prev, CurrentPosition tk, PeekToken tk, map_option fst (NextToken tk),
       map_option PeekToken (SetPosition (int (CurrentPosition tk)) tk),
       map_option fst (Option.bind (SetPosition (int (CurrentPosition tk)) tk) NextToken)))
     (scanFrom (bytes ''a stream 3 RD'') 1)
   = Some (\<lparr>Value = bytes ''a'', Kind = Other\<rparr>, 1,
           (\<lparr>Value = bytes ''stream'', Kind = Other\<rparr>, None),
           Some (\<lparr>Value = bytes ''stream'', Kind = Other\<rparr>, None),
           Some (\<lparr>Value = bytes ''stream'', Kind = Other\<rparr>, None),
           None)"
  by code_simp

end
